theory Spec2Isabelle
  imports Main "HOL-Library.Word" "HOL-Library.Tree"
begin

section \<open>Common types and error numbers\<close>

type_synonym u32 = "32 word"
type_synonym u64 = "64 word"

text \<open>\<open>typedef u64 tpu_addr_t;\<close> (edgetpu-internal.h).\<close>

type_synonym tpu_addr_t = u64

text \<open>The Linux error numbers the modelled functions return (negated, as C \<open>int\<close>).\<close>

definition EPERM :: int where "EPERM = 1"
definition EAGAIN :: int where "EAGAIN = 11"
definition ENOMEM :: int where "ENOMEM = 12"
definition EFAULT :: int where "EFAULT = 14"
definition EBUSY :: int where "EBUSY = 16"
definition EINVAL :: int where "EINVAL = 22"
definition EOVERFLOW :: int where "EOVERFLOW = 75"
definition EOPNOTSUPP :: int where "EOPNOTSUPP = 95"
definition ETIMEDOUT :: int where "ETIMEDOUT = 110"
definition ERESTARTSYS :: int where "ERESTARTSYS = 512"

lemmas errno_defs =
  EPERM_def EAGAIN_def ENOMEM_def EFAULT_def EBUSY_def EINVAL_def EOVERFLOW_def
  EOPNOTSUPP_def ETIMEDOUT_def ERESTARTSYS_def

section \<open>The IOVA mapping tracker (edgetpu-mapping.c)\<close>

text \<open>
  A mapping carries its device address and size in \<open>map->gcip_mapping\<close>
  (\<open>dma_addr_t\<close> and \<open>size_t\<close>, both 64 bits wide on the arm64 targets of this
  driver) and two callbacks. A callback pointer is modelled by an optional identifier:
  \<open>None\<close> is the NULL pointer.
\<close>

record gcip_iommu_mapping =
  device_address :: u64
  size_bytes :: u64

record edgetpu_mapping =
  gcip_mapping :: gcip_iommu_mapping
  release :: "nat option"
  show_cb :: "nat option"

text \<open>
  \<open>struct edgetpu_mapping_root\<close>: the red-black tree of mappings, keyed by device
  address, and the number of nodes. The tree is a binary tree of mappings; \<open>Leaf\<close>
  is the NULL child pointer. The mutex is not part of the state: every function
  below runs its body between \<open>edgetpu_mapping_lock\<close> and
  \<open>edgetpu_mapping_unlock\<close>, or is documented to be called with the lock held.
\<close>

record edgetpu_mapping_root =
  rb :: "edgetpu_mapping tree"
  count :: u64

text \<open>\<open>compare\<close>: -1, 0, 1 as the mapping's device address is below, equal to, above iova.\<close>

definition compare :: "edgetpu_mapping \<Rightarrow> tpu_addr_t \<Rightarrow> int" where
  "compare m iova =
     (if device_address (gcip_mapping m) \<noteq> iova then
        (if device_address (gcip_mapping m) < iova then - 1 else 1)
      else 0)"

definition edgetpu_mapping_init :: edgetpu_mapping_root where
  "edgetpu_mapping_init = \<lparr>rb = Leaf, count = 0\<rparr>"

text \<open>
  The descent of \<open>edgetpu_mapping_add\<close>: \<open>new\<close> walks down from the root, left when
  the node's address is above the new one, right when it is below, and stops with
  \<open>None\<close> at a node with the same device address (\<open>goto out\<close> with \<open>ret = -EBUSY\<close>).
  At a NULL link the new node is linked in (\<open>rb_link_node\<close>).
\<close>

fun rb_link :: "edgetpu_mapping tree \<Rightarrow> edgetpu_mapping \<Rightarrow> edgetpu_mapping tree option" where
  "rb_link Leaf m = Some (Node Leaf m Leaf)"
| "rb_link (Node l this r) m =
     (let cmp = compare this (device_address (gcip_mapping m)) in
      if cmp > 0 then
        (case rb_link l m of None \<Rightarrow> None | Some l' \<Rightarrow> Some (Node l' this r))
      else if cmp < 0 then
        (case rb_link r m of None \<Rightarrow> None | Some r' \<Rightarrow> Some (Node l this r'))
      else None)"

text \<open>
  \<open>edgetpu_mapping_add\<close>. The kernel's \<open>rb_insert_color\<close> (lib/rbtree.c, not part of
  the driver sources) recolours and rotates the tree after the link; it is the
  parameter \<open>rb_insert_color\<close> here. The result is the returned \<open>int\<close> and the
  tracker after the call.
\<close>

definition edgetpu_mapping_add ::
  "(edgetpu_mapping tree \<Rightarrow> edgetpu_mapping tree) \<Rightarrow>
   edgetpu_mapping_root \<Rightarrow> edgetpu_mapping \<Rightarrow> int \<times> edgetpu_mapping_root" where
  "edgetpu_mapping_add rb_insert_color mappings m =
     (if release m = None then (- EINVAL, mappings)
      else
        (case rb_link (rb mappings) m of
           None \<Rightarrow> (- EBUSY, mappings)
         | Some t \<Rightarrow> (0, mappings\<lparr>rb := rb_insert_color t, count := count mappings + 1\<rparr>)))"

text \<open>\<open>edgetpu_mapping_find_locked\<close>: the lookup by exact device address.\<close>

fun edgetpu_mapping_find_locked :: "edgetpu_mapping tree \<Rightarrow> tpu_addr_t \<Rightarrow> edgetpu_mapping option" where
  "edgetpu_mapping_find_locked Leaf iova = None"
| "edgetpu_mapping_find_locked (Node l m r) iova =
     (let cmp = compare m iova in
      if cmp > 0 then edgetpu_mapping_find_locked l iova
      else if cmp < 0 then edgetpu_mapping_find_locked r iova
      else Some m)"

text \<open>
  \<open>edgetpu_mappings_total_size\<close>: \<open>rb_first\<close>/\<open>rb_next\<close> visit the nodes in order; the
  accumulator is a \<open>size_t\<close>, so the additions are 64-bit additions.
\<close>

definition edgetpu_mappings_total_size :: "edgetpu_mapping_root \<Rightarrow> u64" where
  "edgetpu_mappings_total_size mappings =
     fold (\<lambda>m total. total + size_bytes (gcip_mapping m)) (inorder (rb mappings)) 0"

text \<open>
  \<open>iova_in_mapping\<close>: the end of the range is the 64-bit sum
  \<open>device_address + size\<close>.
\<close>

definition iova_in_mapping :: "edgetpu_mapping \<Rightarrow> tpu_addr_t \<Rightarrow> int" where
  "iova_in_mapping m iova =
     (if device_address (gcip_mapping m) + size_bytes (gcip_mapping m) \<le> iova then - 1
      else if iova < device_address (gcip_mapping m) then 1
      else 0)"

fun edgetpu_mapping_find_iova_range ::
  "edgetpu_mapping tree \<Rightarrow> tpu_addr_t \<Rightarrow> edgetpu_mapping option" where
  "edgetpu_mapping_find_iova_range Leaf iova = None"
| "edgetpu_mapping_find_iova_range (Node l m r) iova =
     (let cmp = iova_in_mapping m iova in
      if cmp > 0 then edgetpu_mapping_find_iova_range l iova
      else if cmp < 0 then edgetpu_mapping_find_iova_range r iova
      else Some m)"

subsection \<open>Notions used in the statements\<close>

text \<open>
  The tracker's ordering invariant: the in-order sequence of device addresses is
  strictly increasing. \<open>edgetpu_mapping_init\<close> establishes it and
  \<open>edgetpu_mapping_add\<close> keeps it.
\<close>

definition rb_ordered :: "edgetpu_mapping tree \<Rightarrow> bool" where
  "rb_ordered t = sorted_wrt (<) (map (\<lambda>m. device_address (gcip_mapping m)) (inorder t))"

text \<open>
  The device-address range of a mapping, read over the natural numbers:
  it starts at the device address and ends \<open>size\<close> bytes later.
\<close>

definition range_start :: "edgetpu_mapping \<Rightarrow> nat" where
  "range_start m = unat (device_address (gcip_mapping m))"

definition range_end :: "edgetpu_mapping \<Rightarrow> nat" where
  "range_end m = unat (device_address (gcip_mapping m)) + unat (size_bytes (gcip_mapping m))"

definition in_range :: "edgetpu_mapping \<Rightarrow> tpu_addr_t \<Rightarrow> bool" where
  "in_range m a = (range_start m \<le> unat a \<and> unat a < range_end m)"

text \<open>
  Two half-open ranges overlap when some address lies in both: the later of the two
  starts is below the earlier of the two ends. The range of a mapping of size 0 is
  empty and overlaps nothing.
\<close>

definition ranges_overlap :: "edgetpu_mapping \<Rightarrow> edgetpu_mapping \<Rightarrow> bool" where
  "ranges_overlap m1 m2 =
     (max (range_start m1) (range_start m2) < min (range_end m1) (range_end m2))"

text \<open>
  A mapping of size 0 whose device address lies strictly inside the range of the
  mapping \<open>m\<close>: above its device address and below its end.
\<close>

definition empty_inside :: "edgetpu_mapping \<Rightarrow> edgetpu_mapping \<Rightarrow> bool" where
  "empty_inside e m =
     (size_bytes (gcip_mapping e) = 0
      \<and> range_start m < range_start e \<and> range_start e < range_end m)"

text \<open>
  The state the lookup by range is stated for: the tree is ordered by device address, no
  two of its mappings overlap, no mapping of size 0 lies strictly inside the range of
  another, and every range ends below \<open>2^64\<close>, so that the 64-bit sum
  \<open>device_address + size\<close> of \<open>iova_in_mapping\<close> is the end of the range.
\<close>

definition tracker_ranges_ok :: "edgetpu_mapping tree \<Rightarrow> bool" where
  "tracker_ranges_ok t =
     (rb_ordered t \<and>
      (\<forall>m1\<in>set_tree t. \<forall>m2\<in>set_tree t.
         m1 \<noteq> m2 \<longrightarrow> \<not> ranges_overlap m1 m2 \<and> \<not> empty_inside m1 m2) \<and>
      (\<forall>m\<in>set_tree t. range_end m < 2 ^ 64))"

text \<open>
  Concrete inputs. \<open>rb_no_rebalance\<close> is \<open>rb_insert_color\<close> on the trees used below:
  with at most two nodes the new node's parent is the black root (or the node is the
  root itself), and the kernel routine rotates nothing. \<open>mk_mapping\<close> builds a mapping
  with a release callback.
\<close>

definition rb_no_rebalance :: "edgetpu_mapping tree \<Rightarrow> edgetpu_mapping tree" where
  "rb_no_rebalance t = t"

definition mk_mapping :: "u64 \<Rightarrow> u64 \<Rightarrow> edgetpu_mapping" where
  "mk_mapping a s =
     \<lparr>gcip_mapping = \<lparr>device_address = a, size_bytes = s\<rparr>, release = Some 0, show_cb = None\<rparr>"

section \<open>VII response codes (edgetpu.h)\<close>











section \<open>Clients and wakelocks at the device-file boundary (edgetpu-fs.c, edgetpu-core.c)\<close>

text \<open>
  \<open>struct edgetpu_wakelock\<close>, as far as the callers read it: the request count
  (\<open>uint req_count\<close>).
\<close>

record edgetpu_wakelock =
  req_count :: u32

text \<open>
  \<open>struct edgetpu_client\<close>. The group pointer is an optional group identifier
  (\<open>None\<close> is NULL); \<open>refcount\<close> is the \<open>refcount_t count\<close>.
\<close>

record edgetpu_client =
  pid :: int
  tgid :: int
  refcount :: nat
  group :: "nat option"
  wakelock :: edgetpu_wakelock
  perdie_events :: u64

datatype gcip_telemetry_type = GCIP_TELEMETRY_LOG | GCIP_TELEMETRY_TRACE

text \<open>
  The calls that leave the modelled functions, in the order they are made: each is
  one entry of the event list. Calls that return a value carry it.
\<close>

datatype group_call =
    GROUP_SET_EVENTFD | GROUP_UNSET_EVENTFD
  | DEVICE_GROUP_GET | DEVICE_GROUP_PUT
  | DEVICE_GROUP_MAP | DEVICE_GROUP_UNMAP | DEVICE_GROUP_SYNC_BUFFER
  | MAP_DMABUF | UNMAP_DMABUF | SYNC_FENCE_CREATE
  | SEND_VII_COMMAND | GET_VII_RESPONSE

datatype event =
    PM_GET int
  | PM_PUT
  | GROUP_ATTACH_AND_OPEN_MAILBOX nat int
  | GROUP_CLOSE_AND_DETACH_MAILBOX nat
  | SET_DEV_INACCESSIBLE nat
  | DEVICE_GROUP_LEAVE nat
  | EXT_CLIENT_REMOVE
  | TELEMETRY_UNSET_EVENT gcip_telemetry_type
  | KFREE_CLIENT
  | GROUP_CALL group_call nat
  | FENCE_ARRAY_PUT
  | IREMAP_ALLOC int
  | IREMAP_FREE
  | KFREE_IREMAP_BUFFER
  | KFREE_IIF_FENCES

text \<open>
  The state one call works on: the client behind the file, its address, the device's
  list of clients (by address), whether \<open>client->group_lock\<close> is held, whether the
  client has been freed, and the events so far.
\<close>

record fs_state =
  client :: edgetpu_client
  client_addr :: nat
  etdev_clients :: "nat list"
  group_lock :: bool
  client_freed :: bool
  events :: "event list"

definition emit :: "event \<Rightarrow> fs_state \<Rightarrow> fs_state" where
  "emit e s = s\<lparr>events := events s @ [e]\<rparr>"

definition LOCK :: "fs_state \<Rightarrow> fs_state" where
  "LOCK s = s\<lparr>group_lock := True\<rparr>"

definition UNLOCK :: "fs_state \<Rightarrow> fs_state" where
  "UNLOCK s = s\<lparr>group_lock := False\<rparr>"

text \<open>
  Modelled from the spec: \<open>edgetpu_wakelock_acquire\<close> and \<open>edgetpu_wakelock_release\<close>
  (edgetpu-wakelock.c is not under the sources at hand). Acquire raises the count and
  fails, leaving it, when the count as an \<open>int\<close> is negative; release fails when the
  count is already zero and lowers it otherwise. The callers in edgetpu-fs.c fix what
  is returned: acquire returns the count before the increment (the caller logs
  \<open>count + 1\<close> as the new request count and attaches the mailbox when it gets 0),
  release returns the count after the decrement (the caller detaches at 0).
\<close>

definition edgetpu_wakelock_acquire :: "edgetpu_wakelock \<Rightarrow> int \<times> edgetpu_wakelock" where
  "edgetpu_wakelock_acquire wl =
     (let ret = sint (req_count wl) in
      if ret < 0 then (- EOVERFLOW, wl)
      else (ret, wl\<lparr>req_count := req_count wl + 1\<rparr>))"

definition edgetpu_wakelock_release :: "edgetpu_wakelock \<Rightarrow> int \<times> edgetpu_wakelock" where
  "edgetpu_wakelock_release wl =
     (if req_count wl = 0 then (- EINVAL, wl)
      else (sint (req_count wl - 1), wl\<lparr>req_count := req_count wl - 1\<rparr>))"

text \<open>
  What the surroundings answer during one call: whether the device is thermally
  suspended, what \<open>edgetpu_pm_get\<close> and \<open>edgetpu_group_attach_and_open_mailbox\<close>
  return, and the calling task's ids.
\<close>

record wakelock_env =
  thermal_suspended :: bool
  pm_get_ret :: int
  attach_ret :: int
  current_pid :: int
  current_tgid :: int

text \<open>\<open>edgetpu_ioctl_release_wakelock\<close>.\<close>

definition edgetpu_ioctl_release_wakelock :: "fs_state \<Rightarrow> int \<times> fs_state" where
  "edgetpu_ioctl_release_wakelock s0 =
     (let s = LOCK s0;
          (count, wl) = edgetpu_wakelock_release (wakelock (client s));
          s = s\<lparr>client := (client s)\<lparr>wakelock := wl\<rparr>\<rparr>
      in
      if count < 0 then (count, UNLOCK s)
      else
        let s = (if count = 0 then
                   (case group (client s) of
                      Some g \<Rightarrow> emit (GROUP_CLOSE_AND_DETACH_MAILBOX g) s
                    | None \<Rightarrow> s)
                 else s);
            s = UNLOCK s;
            s = emit PM_PUT s
        in (0, s))"

text \<open>\<open>edgetpu_ioctl_acquire_wakelock\<close>.\<close>

definition edgetpu_ioctl_acquire_wakelock :: "wakelock_env \<Rightarrow> fs_state \<Rightarrow> int \<times> fs_state" where
  "edgetpu_ioctl_acquire_wakelock env s0 =
     (if thermal_suspended env then (- EAGAIN, s0)
      else
        let s = emit (PM_GET (pm_get_ret env)) s0; ret = pm_get_ret env in
        if ret \<noteq> 0 then (ret, s)
        else
          let s = LOCK s;
              s = s\<lparr>client := (client s)\<lparr>pid := current_pid env, tgid := current_tgid env\<rparr>\<rparr>;
              (count, wl) = edgetpu_wakelock_acquire (wakelock (client s));
              s = s\<lparr>client := (client s)\<lparr>wakelock := wl\<rparr>\<rparr>;
              (ret, s) =
                (if count < 0 then (count, s)
                 else if count = 0 then
                   (case group (client s) of
                      None \<Rightarrow> (ret, s)
                    | Some g \<Rightarrow>
                        let s = emit (GROUP_ATTACH_AND_OPEN_MAILBOX g (attach_ret env)) s;
                            ret = attach_ret env
                        in if ret \<noteq> 0 then
                             (ret, s\<lparr>client := (client s)
                                       \<lparr>wakelock := snd (edgetpu_wakelock_release (wakelock (client s)))\<rparr>\<rparr>)
                           else (ret, s))
                 else (ret, s));
              s = UNLOCK s
          in if ret \<noteq> 0 then (ret, emit PM_PUT s) else (ret, s))"

text \<open>
  \<open>edgetpu_client_put\<close>: drops one reference; at the last one the client is freed.
  (\<open>refcount_dec_and_test\<close> on a count that is already 0 warns and frees nothing.)
\<close>

definition edgetpu_client_put :: "fs_state \<Rightarrow> fs_state" where
  "edgetpu_client_put s =
     (if refcount (client s) = 0 then s
      else if refcount (client s) = 1 then
        emit KFREE_CLIENT (s\<lparr>client := (client s)\<lparr>refcount := 0\<rparr>, client_freed := True\<rparr>)
      else s\<lparr>client := (client s)\<lparr>refcount := refcount (client s) - 1\<rparr>\<rparr>)"

text \<open>
  The closing loop of \<open>edgetpu_client_remove\<close>, \<open>while (wakelock_count--)
  edgetpu_pm_put(etdev);\<close>, on the \<open>uint\<close> snapshot of the request count.
\<close>

function pm_put_loop :: "u32 \<Rightarrow> fs_state \<Rightarrow> fs_state" where
  "pm_put_loop wakelock_count s =
     (if wakelock_count \<noteq> 0 then pm_put_loop (wakelock_count - 1) (emit PM_PUT s) else s)"
  by pat_completeness auto
termination
proof (relation "measure (\<lambda>(n, s). unat n)")
  show "wf (measure (\<lambda>(n :: u32, s :: fs_state). unat n))" by simp
next
  fix wakelock_count :: u32 and s :: fs_state
  assume nz: "wakelock_count \<noteq> 0"
  then have "0 < unat wakelock_count" by (simp add: unat_gt_0)
  with nz show "((wakelock_count - 1, emit PM_PUT s), (wakelock_count, s))
      \<in> measure (\<lambda>(n, s). unat n)"
    by (simp add: unat_minus_one)
qed

declare pm_put_loop.simps [simp del]

definition EDGETPU_PERDIE_EVENT_LOGS_AVAILABLE :: nat where
  "EDGETPU_PERDIE_EVENT_LOGS_AVAILABLE = 0x1000"

definition EDGETPU_PERDIE_EVENT_TRACES_AVAILABLE :: nat where
  "EDGETPU_PERDIE_EVENT_TRACES_AVAILABLE = 0x1001"

definition perdie_event_id_to_num :: "nat \<Rightarrow> nat" where
  "perdie_event_id_to_num event_id = event_id - EDGETPU_PERDIE_EVENT_LOGS_AVAILABLE"

text \<open>
  \<open>edgetpu_client_remove\<close>. \<open>edgetpu_device_group_leave\<close> and
  \<open>edgetpu_ext_client_remove\<close> are calls into files that are not at hand: each is an
  event, and the leave clears \<open>client->group\<close>.
\<close>

definition edgetpu_client_remove :: "fs_state \<Rightarrow> fs_state" where
  "edgetpu_client_remove s0 =
     (let s = LOCK s0;
          wakelock_count = req_count (wakelock (client s));
          s = (if wakelock_count = 0 then
                 (case group (client s) of
                    Some g \<Rightarrow> emit (SET_DEV_INACCESSIBLE g) s
                  | None \<Rightarrow> s)
               else s);
          s = UNLOCK s;
          s = s\<lparr>etdev_clients := remove1 (client_addr s) (etdev_clients s)\<rparr>;
          s = (case group (client s) of
                 Some g \<Rightarrow> (emit (DEVICE_GROUP_LEAVE g) s)\<lparr>client := (client s)\<lparr>group := None\<rparr>\<rparr>
               | None \<Rightarrow> s);
          s = emit EXT_CLIENT_REMOVE s;
          s = (if bit (perdie_events (client s))
                    (perdie_event_id_to_num EDGETPU_PERDIE_EVENT_LOGS_AVAILABLE)
               then emit (TELEMETRY_UNSET_EVENT GCIP_TELEMETRY_LOG) s else s);
          s = (if bit (perdie_events (client s))
                    (perdie_event_id_to_num EDGETPU_PERDIE_EVENT_TRACES_AVAILABLE)
               then emit (TELEMETRY_UNSET_EVENT GCIP_TELEMETRY_TRACE) s else s);
          s = edgetpu_client_put s
      in pm_put_loop wakelock_count s)"

text \<open>The events a call adds: what follows the events that were there before it.\<close>

definition new_events :: "fs_state \<Rightarrow> fs_state \<Rightarrow> event list" where
  "new_events s s' = drop (length (events s)) (events s')"

text \<open>
  The events of \<open>edgetpu_client_remove\<close> up to, not including, the drop of the
  client's reference.
\<close>

definition remove_before_put :: "fs_state \<Rightarrow> event list" where
  "remove_before_put s =
     (if req_count (wakelock (client s)) = 0 then
        (case group (client s) of Some g \<Rightarrow> [SET_DEV_INACCESSIBLE g] | None \<Rightarrow> [])
      else [])
     @ (case group (client s) of Some g \<Rightarrow> [DEVICE_GROUP_LEAVE g] | None \<Rightarrow> [])
     @ [EXT_CLIENT_REMOVE]
     @ (if bit (perdie_events (client s)) (0::nat) then [TELEMETRY_UNSET_EVENT GCIP_TELEMETRY_LOG] else [])
     @ (if bit (perdie_events (client s)) (1::nat) then [TELEMETRY_UNSET_EVENT GCIP_TELEMETRY_TRACE] else [])"

text \<open>
  Concrete inputs: a client of group 7 with one reference and no wakelock held, the
  state of a call on it, the same with two wakelocks held, and surroundings in which
  every call succeeds.
\<close>

definition client0 :: edgetpu_client where
  "client0 = \<lparr>pid = 100, tgid = 100, refcount = 1, group = Some 7,
              wakelock = \<lparr>req_count = 0\<rparr>, perdie_events = 0\<rparr>"

definition fs0 :: fs_state where
  "fs0 = \<lparr>client = client0, client_addr = 1, etdev_clients = [1], group_lock = False,
          client_freed = False, events = []\<rparr>"

definition env_ok :: wakelock_env where
  "env_ok = \<lparr>thermal_suspended = False, pm_get_ret = 0, attach_ret = 0,
             current_pid = 200, current_tgid = 200\<rparr>"

definition fs_held :: fs_state where
  "fs_held = fs0\<lparr>client := client0\<lparr>wakelock := \<lparr>req_count = 2\<rparr>\<rparr>\<rparr>"

section \<open>Group-scoped operations of the device file (edgetpu-fs.c)\<close>

text \<open>\<open>enum edgetpu_vii_format\<close> (edgetpu-internal.h).\<close>

datatype edgetpu_vii_format =
  EDGETPU_VII_FORMAT_UNKNOWN | EDGETPU_VII_FORMAT_FLATBUFFER | EDGETPU_VII_FORMAT_LITEBUF

text \<open>
  \<open>lock_check_group_member\<close>: takes \<open>client->group_lock\<close>; without a group it drops
  the lock again and answers false, with a group it answers true and keeps the lock.
  The answer here is the group the callers go on to read from \<open>client->group\<close>.
\<close>

definition lock_check_group_member :: "fs_state \<Rightarrow> nat option \<times> fs_state" where
  "lock_check_group_member s0 =
     (let s = LOCK s0 in
      case group (client s) of
        None \<Rightarrow> (None, UNLOCK s)
      | Some g \<Rightarrow> (Some g, s))"

text \<open>
  \<open>get_fence_array_from_user\<close>. The arguments are the count passed by the user and
  what the calls inside answer: whether \<open>kcalloc\<close> and \<open>copy_from_user\<close> succeed, the
  error of \<open>gcip_fence_array_create\<close> (0 for none), and whether one of the fences is
  a DMA fence array. The result is NULL, an array, or an error pointer. An array that
  is rejected because it holds a DMA fence array has been created, and is put again
  before the error is returned.
\<close>

datatype fence_array = FENCE_NULL | FENCE_ARRAY | FENCE_ERR int

record fence_args =
  fence_count :: u32
  fence_kcalloc_ok :: bool
  fence_copy_ok :: bool
  fence_create_err :: int
  fence_has_dma_array :: bool

definition EDGETPU_VII_COMMAND_MAX_NUM_FENCES :: nat where
  "EDGETPU_VII_COMMAND_MAX_NUM_FENCES = 64"

definition get_fence_array_from_user ::
  "fence_args \<Rightarrow> bool \<Rightarrow> fs_state \<Rightarrow> fence_array \<times> fs_state" where
  "get_fence_array_from_user a reject_dma_fence_array s =
     (if fence_count a = 0 then (FENCE_NULL, s)
      else if unat (fence_count a) > EDGETPU_VII_COMMAND_MAX_NUM_FENCES then
        (FENCE_ERR (- EINVAL), s)
      else if \<not> fence_kcalloc_ok a then (FENCE_ERR (- ENOMEM), s)
      else if \<not> fence_copy_ok a then (FENCE_ERR (- EFAULT), s)
      else if fence_create_err a \<noteq> 0 then (FENCE_ERR (fence_create_err a), s)
      else if \<not> reject_dma_fence_array then (FENCE_ARRAY, s)
      else if fence_has_dma_array a then (FENCE_ERR (- EINVAL), emit FENCE_ARRAY_PUT s)
      else (FENCE_ARRAY, s))"

text \<open>
  What the surroundings answer during one ioctl: the mode of the file, whether the
  copies from and to user space succeed, the device's in-kernel-VII switch and VII
  format, the return value of the group operation the handler calls, the two fence
  arrays of a VII command, and for the litebuf command whether the payload fits the
  inline buffer and what the allocations and the inter-IP fence lookups answer.
\<close>

record ioctl_env =
  file_has_client :: bool
  f_mode_write :: bool
  copy_from_user_ok :: bool
  copy_to_user_ok :: bool
  use_ikv :: bool
  vii_format :: edgetpu_vii_format
  call_ret :: int
  in_fences :: fence_args
  out_fences :: fence_args
  litebuf_fits :: bool
  copy_payload_ok :: bool
  kzalloc_ok :: bool
  iremap_alloc_ret :: int
  in_iif_err :: int
  out_iif_err :: int

definition edgetpu_ioctl_set_eventfd :: "ioctl_env \<Rightarrow> fs_state \<Rightarrow> int \<times> fs_state" where
  "edgetpu_ioctl_set_eventfd env s0 =
     (if \<not> copy_from_user_ok env then (- EFAULT, s0)
      else
        case lock_check_group_member s0 of
          (None, s) \<Rightarrow> (- EINVAL, s)
        | (Some g, s) \<Rightarrow>
            let s = emit (GROUP_CALL GROUP_SET_EVENTFD g) s; ret = call_ret env;
                s = UNLOCK s
            in (ret, s))"

definition edgetpu_ioctl_unset_eventfd :: "ioctl_env \<Rightarrow> fs_state \<Rightarrow> int \<times> fs_state" where
  "edgetpu_ioctl_unset_eventfd env s0 =
     (case lock_check_group_member s0 of
        (None, s) \<Rightarrow> (- EINVAL, s)
      | (Some g, s) \<Rightarrow>
          let s = emit (GROUP_CALL GROUP_UNSET_EVENTFD g) s;
              s = UNLOCK s
          in (0, s))"

definition edgetpu_ioctl_map_buffer :: "ioctl_env \<Rightarrow> fs_state \<Rightarrow> int \<times> fs_state" where
  "edgetpu_ioctl_map_buffer env s0 =
     (if \<not> copy_from_user_ok env then (- EFAULT, s0)
      else
        case lock_check_group_member s0 of
          (None, s) \<Rightarrow> (- EINVAL, s)
        | (Some g, s) \<Rightarrow>
            let s = emit (GROUP_CALL DEVICE_GROUP_GET g) s;
                s = UNLOCK s;
                s = emit (GROUP_CALL DEVICE_GROUP_MAP g) s; ret = call_ret env;
                (ret, s) =
                  (if ret \<noteq> 0 then (ret, s)
                   else if \<not> copy_to_user_ok env then
                     (- EFAULT, emit (GROUP_CALL DEVICE_GROUP_UNMAP g) s)
                   else (ret, s));
                s = emit (GROUP_CALL DEVICE_GROUP_PUT g) s
            in (ret, s))"

definition edgetpu_ioctl_unmap_buffer :: "ioctl_env \<Rightarrow> fs_state \<Rightarrow> int \<times> fs_state" where
  "edgetpu_ioctl_unmap_buffer env s0 =
     (if \<not> copy_from_user_ok env then (- EFAULT, s0)
      else
        case lock_check_group_member s0 of
          (None, s) \<Rightarrow> (- EINVAL, s)
        | (Some g, s) \<Rightarrow>
            let s = emit (GROUP_CALL DEVICE_GROUP_UNMAP g) s; ret = call_ret env;
                s = UNLOCK s
            in (ret, s))"

definition edgetpu_ioctl_sync_buffer :: "ioctl_env \<Rightarrow> fs_state \<Rightarrow> int \<times> fs_state" where
  "edgetpu_ioctl_sync_buffer env s0 =
     (if \<not> copy_from_user_ok env then (- EFAULT, s0)
      else
        case lock_check_group_member s0 of
          (None, s) \<Rightarrow> (- EINVAL, s)
        | (Some g, s) \<Rightarrow>
            let s = emit (GROUP_CALL DEVICE_GROUP_SYNC_BUFFER g) s; ret = call_ret env;
                s = UNLOCK s
            in (ret, s))"

definition edgetpu_ioctl_map_dmabuf :: "ioctl_env \<Rightarrow> fs_state \<Rightarrow> int \<times> fs_state" where
  "edgetpu_ioctl_map_dmabuf env s0 =
     (if \<not> copy_from_user_ok env then (- EFAULT, s0)
      else
        case lock_check_group_member s0 of
          (None, s) \<Rightarrow> (- EINVAL, s)
        | (Some g, s) \<Rightarrow>
            let s = emit (GROUP_CALL DEVICE_GROUP_GET g) s;
                s = emit (GROUP_CALL MAP_DMABUF g) s; ret = call_ret env;
                s = UNLOCK s;
                (ret, s) =
                  (if ret \<noteq> 0 then (ret, s)
                   else if \<not> copy_to_user_ok env then
                     (- EFAULT, emit (GROUP_CALL UNMAP_DMABUF g) s)
                   else (ret, s));
                s = emit (GROUP_CALL DEVICE_GROUP_PUT g) s
            in (ret, s))"

definition edgetpu_ioctl_unmap_dmabuf :: "ioctl_env \<Rightarrow> fs_state \<Rightarrow> int \<times> fs_state" where
  "edgetpu_ioctl_unmap_dmabuf env s0 =
     (if \<not> copy_from_user_ok env then (- EFAULT, s0)
      else
        case lock_check_group_member s0 of
          (None, s) \<Rightarrow> (- EINVAL, s)
        | (Some g, s) \<Rightarrow>
            let s = emit (GROUP_CALL UNMAP_DMABUF g) s; ret = call_ret env;
                s = UNLOCK s
            in (ret, s))"

text \<open>
  \<open>edgetpu_ioctl_sync_fence_create\<close> takes the lock and tests \<open>client->group\<close> itself.
\<close>

definition edgetpu_ioctl_sync_fence_create :: "ioctl_env \<Rightarrow> fs_state \<Rightarrow> int \<times> fs_state" where
  "edgetpu_ioctl_sync_fence_create env s0 =
     (if \<not> copy_from_user_ok env then (- EFAULT, s0)
      else
        let s = LOCK s0 in
        case group (client s) of
          None \<Rightarrow> (- EINVAL, UNLOCK s)
        | Some g \<Rightarrow>
            let s = emit (GROUP_CALL SYNC_FENCE_CREATE g) s; ret = call_ret env;
                s = UNLOCK s
            in if ret \<noteq> 0 then (ret, s)
               else if \<not> copy_to_user_ok env then (- EFAULT, s)
               else (ret, s))"

text \<open>
  The VII handlers first test that in-kernel VII is in use and that the device speaks
  the format of the call.
\<close>

definition edgetpu_ioctl_vii_command :: "ioctl_env \<Rightarrow> fs_state \<Rightarrow> int \<times> fs_state" where
  "edgetpu_ioctl_vii_command env s0 =
     (if \<not> copy_from_user_ok env then (- EFAULT, s0)
      else if \<not> use_ikv env \<or> vii_format env \<noteq> EDGETPU_VII_FORMAT_FLATBUFFER then
        (- EOPNOTSUPP, s0)
      else
        case lock_check_group_member s0 of
          (None, s) \<Rightarrow> (- EINVAL, s)
        | (Some g, s) \<Rightarrow>
            (case get_fence_array_from_user (in_fences env) False s of
               (FENCE_ERR e, s) \<Rightarrow> (e, UNLOCK s)
             | (_, s) \<Rightarrow>
                 (case get_fence_array_from_user (out_fences env) True s of
                    (FENCE_ERR e, s) \<Rightarrow> (e, UNLOCK (emit FENCE_ARRAY_PUT s))
                  | (_, s) \<Rightarrow>
                      let s = emit (GROUP_CALL SEND_VII_COMMAND g) s; ret = call_ret env;
                          s = emit FENCE_ARRAY_PUT s;
                          s = emit FENCE_ARRAY_PUT s;
                          s = UNLOCK s
                      in (ret, s))))"

definition edgetpu_ioctl_vii_response :: "ioctl_env \<Rightarrow> fs_state \<Rightarrow> int \<times> fs_state" where
  "edgetpu_ioctl_vii_response env s0 =
     (if \<not> use_ikv env \<or> vii_format env \<noteq> EDGETPU_VII_FORMAT_FLATBUFFER then
        (- EOPNOTSUPP, s0)
      else
        case lock_check_group_member s0 of
          (None, s) \<Rightarrow> (- EINVAL, s)
        | (Some g, s) \<Rightarrow>
            let s = emit (GROUP_CALL GET_VII_RESPONSE g) s; ret = call_ret env;
                ret = (if ret \<noteq> 0 then ret
                       else if \<not> copy_to_user_ok env then - EFAULT else ret);
                s = UNLOCK s
            in (ret, s))"

text \<open>
  \<open>edgetpu_ioctl_vii_litebuf_command\<close>. A payload that fits is copied into the
  command; a larger one is copied into a buffer from the instruction-remap pool,
  which is freed again at the labels \<open>out_free_large_command_iremap\<close> and
  \<open>out_free_large_command_buffer\<close> when the call ends with an error and reached them.
  \<open>large\<close> says that such a buffer exists.
\<close>

definition litebuf_command_tail :: "ioctl_env \<Rightarrow> nat \<Rightarrow> bool \<Rightarrow> fs_state \<Rightarrow> int \<times> fs_state" where
  "litebuf_command_tail env g large s0 =
     (case get_fence_array_from_user (in_fences env) False s0 of
        (FENCE_ERR e, s1) \<Rightarrow> (e, UNLOCK s1)
      | (_, s1) \<Rightarrow>
          let (ret, s) =
            (case get_fence_array_from_user (out_fences env) True s1 of
               (FENCE_ERR e, s2) \<Rightarrow> (e, s2)
             | (_, s2) \<Rightarrow>
                 let (ret, s) =
                   (if in_iif_err env \<noteq> 0 then (in_iif_err env, s2)
                    else
                      let (ret, s) =
                        (if out_iif_err env \<noteq> 0 then (out_iif_err env, s2)
                         else
                           let s = emit (GROUP_CALL SEND_VII_COMMAND g) s2;
                               ret = call_ret env
                           in (ret, emit KFREE_IIF_FENCES s))
                      in (ret, emit KFREE_IIF_FENCES s))
                 in (ret, emit FENCE_ARRAY_PUT s));
              s = emit FENCE_ARRAY_PUT s;
              s = (if ret \<noteq> 0 \<and> large then emit IREMAP_FREE s else s);
              s = (if ret \<noteq> 0 \<and> large then emit KFREE_IREMAP_BUFFER s else s)
          in (ret, UNLOCK s))"

definition edgetpu_ioctl_vii_litebuf_command :: "ioctl_env \<Rightarrow> fs_state \<Rightarrow> int \<times> fs_state" where
  "edgetpu_ioctl_vii_litebuf_command env s0 =
     (if \<not> copy_from_user_ok env then (- EFAULT, s0)
      else if \<not> use_ikv env \<or> vii_format env \<noteq> EDGETPU_VII_FORMAT_LITEBUF then
        (- EOPNOTSUPP, s0)
      else
        case lock_check_group_member s0 of
          (None, s) \<Rightarrow> (- EINVAL, s)
        | (Some g, s) \<Rightarrow>
            if litebuf_fits env then
              (if \<not> copy_payload_ok env then (- EFAULT, UNLOCK s)
               else litebuf_command_tail env g False s)
            else if \<not> kzalloc_ok env then (- ENOMEM, UNLOCK s)
            else
              let s = emit (IREMAP_ALLOC (iremap_alloc_ret env)) s; ret = iremap_alloc_ret env in
              if ret \<noteq> 0 then (ret, UNLOCK (emit KFREE_IREMAP_BUFFER s))
              else if \<not> copy_payload_ok env then
                (- EFAULT, UNLOCK (emit KFREE_IREMAP_BUFFER (emit IREMAP_FREE s)))
              else litebuf_command_tail env g True s)"

definition edgetpu_ioctl_vii_litebuf_response :: "ioctl_env \<Rightarrow> fs_state \<Rightarrow> int \<times> fs_state" where
  "edgetpu_ioctl_vii_litebuf_response env s0 =
     (if \<not> copy_from_user_ok env then (- EFAULT, s0)
      else if \<not> use_ikv env \<or> vii_format env \<noteq> EDGETPU_VII_FORMAT_LITEBUF then
        (- EOPNOTSUPP, s0)
      else
        case lock_check_group_member s0 of
          (None, s) \<Rightarrow> (- EINVAL, s)
        | (Some g, s) \<Rightarrow>
            let s = emit (GROUP_CALL GET_VII_RESPONSE g) s; ret = call_ret env;
                ret = (if ret \<noteq> 0 then ret
                       else if \<not> copy_payload_ok env then - EFAULT
                       else if \<not> copy_to_user_ok env then - EFAULT else ret);
                s = UNLOCK s
            in (ret, s))"

text \<open>
  The commands of \<open>edgetpu_ioctl\<close> whose handlers work on the client's group, and the
  part of the dispatcher that serves them: without a client behind the file the
  answer is -ENODEV, on a file not opened for writing -EPERM, and otherwise the
  handler's.
\<close>

datatype ioctl_cmd =
    EDGETPU_MAP_BUFFER | EDGETPU_UNMAP_BUFFER | EDGETPU_SYNC_BUFFER
  | EDGETPU_MAP_DMABUF | EDGETPU_UNMAP_DMABUF
  | EDGETPU_SET_EVENTFD | EDGETPU_UNSET_EVENT
  | EDGETPU_CREATE_SYNC_FENCE
  | EDGETPU_VII_COMMAND | EDGETPU_VII_RESPONSE
  | EDGETPU_VII_LITEBUF_COMMAND | EDGETPU_VII_LITEBUF_RESPONSE

definition ENODEV :: int where "ENODEV = 19"

definition edgetpu_ioctl :: "ioctl_cmd \<Rightarrow> ioctl_env \<Rightarrow> fs_state \<Rightarrow> int \<times> fs_state" where
  "edgetpu_ioctl cmd env s =
     (if \<not> file_has_client env then (- ENODEV, s)
      else if \<not> f_mode_write env then (- EPERM, s)
      else
        case cmd of
          EDGETPU_MAP_BUFFER \<Rightarrow> edgetpu_ioctl_map_buffer env s
        | EDGETPU_UNMAP_BUFFER \<Rightarrow> edgetpu_ioctl_unmap_buffer env s
        | EDGETPU_SET_EVENTFD \<Rightarrow> edgetpu_ioctl_set_eventfd env s
        | EDGETPU_UNSET_EVENT \<Rightarrow> edgetpu_ioctl_unset_eventfd env s
        | EDGETPU_SYNC_BUFFER \<Rightarrow> edgetpu_ioctl_sync_buffer env s
        | EDGETPU_MAP_DMABUF \<Rightarrow> edgetpu_ioctl_map_dmabuf env s
        | EDGETPU_UNMAP_DMABUF \<Rightarrow> edgetpu_ioctl_unmap_dmabuf env s
        | EDGETPU_CREATE_SYNC_FENCE \<Rightarrow> edgetpu_ioctl_sync_fence_create env s
        | EDGETPU_VII_COMMAND \<Rightarrow> edgetpu_ioctl_vii_command env s
        | EDGETPU_VII_RESPONSE \<Rightarrow> edgetpu_ioctl_vii_response env s
        | EDGETPU_VII_LITEBUF_COMMAND \<Rightarrow> edgetpu_ioctl_vii_litebuf_command env s
        | EDGETPU_VII_LITEBUF_RESPONSE \<Rightarrow> edgetpu_ioctl_vii_litebuf_response env s)"

text \<open>
  The guards a handler passes before it looks at the group: all but the unset of an
  event and the VII response first copy their argument in; the VII handlers then test
  the device's VII mode.
\<close>

definition copies_argument_in :: "ioctl_cmd \<Rightarrow> bool" where
  "copies_argument_in cmd = (cmd \<noteq> EDGETPU_UNSET_EVENT \<and> cmd \<noteq> EDGETPU_VII_RESPONSE)"

definition vii_mode_refused :: "ioctl_cmd \<Rightarrow> ioctl_env \<Rightarrow> bool" where
  "vii_mode_refused cmd env =
     (if cmd = EDGETPU_VII_COMMAND \<or> cmd = EDGETPU_VII_RESPONSE then
        \<not> use_ikv env \<or> vii_format env \<noteq> EDGETPU_VII_FORMAT_FLATBUFFER
      else if cmd = EDGETPU_VII_LITEBUF_COMMAND \<or> cmd = EDGETPU_VII_LITEBUF_RESPONSE then
        \<not> use_ikv env \<or> vii_format env \<noteq> EDGETPU_VII_FORMAT_LITEBUF
      else False)"

definition no_group_errno :: "ioctl_cmd \<Rightarrow> ioctl_env \<Rightarrow> int" where
  "no_group_errno cmd env =
     (if \<not> file_has_client env then - ENODEV
      else if \<not> f_mode_write env then - EPERM
      else if copies_argument_in cmd \<and> \<not> copy_from_user_ok env then - EFAULT
      else if vii_mode_refused cmd env then - EOPNOTSUPP
      else - EINVAL)"

text \<open>Concrete inputs: a client without a group, and surroundings for the calls.\<close>

definition fs_nogroup :: fs_state where
  "fs_nogroup = fs0\<lparr>client := client0\<lparr>group := None\<rparr>\<rparr>"

definition no_fences :: fence_args where
  "no_fences = \<lparr>fence_count = 0, fence_kcalloc_ok = True, fence_copy_ok = True,
                fence_create_err = 0, fence_has_dma_array = False\<rparr>"

definition ioctl_env_ok :: ioctl_env where
  "ioctl_env_ok =
     \<lparr>file_has_client = True, f_mode_write = True, copy_from_user_ok = True,
      copy_to_user_ok = True, use_ikv = True, vii_format = EDGETPU_VII_FORMAT_FLATBUFFER,
      call_ret = 0, in_fences = no_fences, out_fences = no_fences, litebuf_fits = True,
      copy_payload_ok = True, kzalloc_ok = True, iremap_alloc_ret = 0, in_iif_err = 0,
      out_iif_err = 0\<rparr>"


section \<open>The in-kernel fence awaiter (gcip-ikf.c)\<close>

text \<open>
  A waiter thread runs \<open>gcip_ikf_thread_func\<close> concurrently with the other waiters
  and with \<open>gcip_ikf_awaiter_exit\<close>. The model is a transition system: each
  transition is one statement (or one critical section under
  \<open>awaiter->threads_lock\<close>) of one of them, and a run is any interleaving. The places
  a waiter can be at:
  \<^item> \<open>T_START\<close>: created and woken, \<open>gcip_ikf_thread_func\<close> not yet entered;
  \<^item> \<open>T_WAIT\<close>: inside \<open>dma_fence_wait_timeout\<close>;
  \<^item> \<open>T_CHECK\<close>: before the test of \<open>kthread_should_stop()\<close>;
  \<^item> \<open>T_SET\<close>: the test failed; before \<open>thread->signaled = true\<close>;
  \<^item> \<open>T_CB\<close>: before the call of \<open>awaiter->signaled_cb\<close>;
  \<^item> \<open>T_OUT\<close>: at the label \<open>out\<close>, before the critical section;
  \<^item> \<open>T_REL\<close>: after the critical section, before the release of its resources;
  \<^item> \<open>T_EXITED\<close>: the thread function has returned.
\<close>

datatype thread_pc = T_START | T_WAIT | T_CHECK | T_SET | T_CB | T_OUT | T_REL | T_EXITED

text \<open>
  \<open>struct gcip_ikf_thread\<close>, with the local variables of its thread function
  (\<open>wait_status\<close>, \<open>release_thread\<close>), the stop flag of its task (what
  \<open>kthread_should_stop()\<close> reads and \<open>kthread_stop\<close> sets) and whether the struct has
  been freed. \<open>saw_stop\<close> records what the test of \<open>kthread_should_stop()\<close> answered
  (\<open>None\<close> before the test); no transition reads it.
\<close>

record gcip_ikf_thread =
  t_pc :: thread_pc
  timeout_jiffies :: int
  wait_status :: int
  signaled :: bool
  release_thread :: bool
  should_stop :: bool
  saw_stop :: "bool option"
  freed :: bool

text \<open>
  Where \<open>gcip_ikf_awaiter_exit\<close> is: not called, at the head of its loop, inside
  \<open>kthread_stop\<close> of the waiter it is at (the flag set, waiting for the thread to
  end), or returned.
\<close>

datatype exit_pc = E_IDLE | E_LOOP | E_STOPPING nat | E_DONE

datatype deliverer = BY_THREAD | BY_EXIT

text \<open>
  \<open>struct gcip_ikf_awaiter\<close> and what surrounds it: the list of waiters (by index
  into \<open>pool\<close>, which holds every thread struct ever made), the stop flag, whether a
  callback is registered, the place of the exit call, the waiters that were on the
  list when the exit call set the stop flag, and the calls of the callback so far,
  each with the waiter it is for, the status passed and who made it.
\<close>

record gcip_ikf_awaiter =
  threads :: "nat list"
  stop_threads :: bool
  signaled_cb :: bool
  pool :: "gcip_ikf_thread list"
  exit_at :: exit_pc
  outstanding :: "nat list"
  callbacks :: "(nat \<times> int \<times> deliverer) list"

definition MAX_SCHEDULE_TIMEOUT :: int where
  "MAX_SCHEDULE_TIMEOUT = 2 ^ 63 - 1"

definition gcip_ikf_awaiter_init :: "bool \<Rightarrow> gcip_ikf_awaiter" where
  "gcip_ikf_awaiter_init cb =
     \<lparr>threads = [], stop_threads = False, signaled_cb = cb, pool = [], exit_at = E_IDLE,
      outstanding = [], callbacks = []\<rparr>"

text \<open>
  \<open>gcip_ikf_wait_timeout\<close>. The arguments: whether the fence is non-NULL, whether
  \<open>kzalloc\<close> succeeds, the error number of \<open>kthread_create\<close> (0 for success), and the
  timeout. On the path where the awaiter is stopping, the thread that was just
  created is stopped before it was ever woken, so its function never runs, and
  nothing of it remains.
\<close>

record wait_args =
  fence_ok :: bool
  kzalloc_thread_ok :: bool
  kthread_create_errno :: nat
  timeout_arg :: int

definition new_thread :: "int \<Rightarrow> gcip_ikf_thread" where
  "new_thread t =
     \<lparr>t_pc = T_START, timeout_jiffies = t, wait_status = t, signaled = False,
      release_thread = False, should_stop = False, saw_stop = None, freed = False\<rparr>"

definition gcip_ikf_wait_timeout :: "wait_args \<Rightarrow> gcip_ikf_awaiter \<Rightarrow> int \<times> gcip_ikf_awaiter" where
  "gcip_ikf_wait_timeout a s =
     (if \<not> fence_ok a then (- EINVAL, s)
      else if \<not> kzalloc_thread_ok a then (- ENOMEM, s)
      else if kthread_create_errno a \<noteq> 0 then (- int (kthread_create_errno a), s)
      else if stop_threads s then (- EPERM, s)
      else (0, s\<lparr>threads := threads s @ [length (pool s)],
                 pool := pool s @ [new_thread (timeout_arg a)]\<rparr>))"

text \<open>Writing the struct of waiter \<open>t\<close>.\<close>

definition set_thread :: "nat \<Rightarrow> gcip_ikf_thread \<Rightarrow> gcip_ikf_awaiter \<Rightarrow> gcip_ikf_awaiter" where
  "set_thread t th s = s\<lparr>pool := (pool s)[t := th]\<rparr>"

text \<open>
  One statement of waiter \<open>t\<close>, outside \<open>dma_fence_wait_timeout\<close>. What the kernel's
  thread support does is part of it: a thread that \<open>kthread_stop\<close> reaches before it
  first runs ends without entering its function (\<open>T_START\<close> with the stop flag set);
  \<open>kthread_should_stop()\<close> reads the stop flag of the thread's own task. The critical
  section at \<open>out\<close> is one transition: with \<open>stop_threads\<close> clear the waiter takes
  itself off the list and will release its struct, otherwise it leaves both to the exit
  call.
\<close>

definition thread_step :: "nat \<Rightarrow> gcip_ikf_awaiter \<Rightarrow> gcip_ikf_awaiter option" where
  "thread_step t s =
     (if t \<ge> length (pool s) then None
      else
        let th = pool s ! t in
        case t_pc th of
          T_START \<Rightarrow>
            Some (set_thread t (th\<lparr>t_pc := (if should_stop th then T_EXITED else T_WAIT)\<rparr>) s)
        | T_WAIT \<Rightarrow> None
        | T_CHECK \<Rightarrow>
            Some (set_thread t
              (th\<lparr>saw_stop := Some (should_stop th),
                  t_pc := (if should_stop th then T_OUT else T_SET)\<rparr>) s)
        | T_SET \<Rightarrow>
            let w = wait_status th;
                w = (if w = 0 then - ETIMEDOUT else w);
                w = (if w = MAX_SCHEDULE_TIMEOUT then 0 else w)
            in Some (set_thread t (th\<lparr>signaled := True, wait_status := w, t_pc := T_CB\<rparr>) s)
        | T_CB \<Rightarrow>
            let s = (if signaled_cb s
                     then s\<lparr>callbacks := callbacks s @ [(t, wait_status th, BY_THREAD)]\<rparr>
                     else s)
            in Some (set_thread t (th\<lparr>t_pc := T_OUT\<rparr>) s)
        | T_OUT \<Rightarrow>
            if \<not> stop_threads s then
              Some (set_thread t (th\<lparr>release_thread := True, t_pc := T_REL\<rparr>)
                      (s\<lparr>threads := remove1 t (threads s)\<rparr>))
            else Some (set_thread t (th\<lparr>t_pc := T_REL\<rparr>) s)
        | T_REL \<Rightarrow>
            Some (set_thread t
              (th\<lparr>freed := (if release_thread th then True else freed th), t_pc := T_EXITED\<rparr>) s)
        | T_EXITED \<Rightarrow> None)"

text \<open>
  \<open>dma_fence_wait_timeout\<close> of waiter \<open>t\<close> returns \<open>r\<close>: the remaining jiffies when
  the fence was signalled, 0 on timeout, \<open>-ERESTARTSYS\<close> when the wait was interrupted
  (as \<open>kthread_stop\<close> does), or another error. Every value is allowed at every time.
\<close>

definition fence_wait_return :: "nat \<Rightarrow> int \<Rightarrow> gcip_ikf_awaiter \<Rightarrow> gcip_ikf_awaiter option" where
  "fence_wait_return t r s =
     (if t \<ge> length (pool s) then None
      else
        let th = pool s ! t in
        if t_pc th = T_WAIT then Some (set_thread t (th\<lparr>wait_status := r, t_pc := T_CHECK\<rparr>) s)
        else None)"

text \<open>
  One step of \<open>gcip_ikf_awaiter_exit\<close>: the critical section that sets
  \<open>stop_threads\<close>; at the head of the loop, the first half of \<open>kthread_stop\<close> on the
  first waiter of the list (or the return, on an empty list); and, once that waiter's
  thread has ended, the return of \<open>kthread_stop\<close> with the rest of the loop body: the
  callback with \<open>-ERESTARTSYS\<close> when the waiter is not marked signalled, \<open>list_del\<close>,
  and the release of the struct.
\<close>

definition exit_step :: "gcip_ikf_awaiter \<Rightarrow> gcip_ikf_awaiter option" where
  "exit_step s =
     (case exit_at s of
        E_IDLE \<Rightarrow> Some (s\<lparr>stop_threads := True, outstanding := threads s, exit_at := E_LOOP\<rparr>)
      | E_LOOP \<Rightarrow>
          (case threads s of
             [] \<Rightarrow> Some (s\<lparr>exit_at := E_DONE\<rparr>)
           | cur # _ \<Rightarrow>
               if cur \<ge> length (pool s) then None
               else Some (set_thread cur ((pool s ! cur)\<lparr>should_stop := True\<rparr>)
                            (s\<lparr>exit_at := E_STOPPING cur\<rparr>)))
      | E_STOPPING cur \<Rightarrow>
          if cur \<ge> length (pool s) then None
          else
            let th = pool s ! cur in
            if t_pc th \<noteq> T_EXITED then None
            else
              let s = (if \<not> signaled th \<and> signaled_cb s
                       then s\<lparr>callbacks := callbacks s @ [(cur, - ERESTARTSYS, BY_EXIT)]\<rparr>
                       else s);
                  s = s\<lparr>threads := remove1 cur (threads s)\<rparr>
              in Some (set_thread cur (th\<lparr>freed := True\<rparr>) (s\<lparr>exit_at := E_LOOP\<rparr>))
      | E_DONE \<Rightarrow> None)"

text \<open>The transitions, and runs.\<close>

datatype label =
    L_WAIT wait_args
  | L_THREAD nat
  | L_FENCE nat int
  | L_EXIT

definition step :: "label \<Rightarrow> gcip_ikf_awaiter \<Rightarrow> gcip_ikf_awaiter option" where
  "step l s =
     (case l of
        L_WAIT a \<Rightarrow> Some (snd (gcip_ikf_wait_timeout a s))
      | L_THREAD t \<Rightarrow> thread_step t s
      | L_FENCE t r \<Rightarrow> fence_wait_return t r s
      | L_EXIT \<Rightarrow> exit_step s)"

fun exec :: "label list \<Rightarrow> gcip_ikf_awaiter \<Rightarrow> gcip_ikf_awaiter option" where
  "exec [] s = Some s"
| "exec (l # ls) s = (case step l s of None \<Rightarrow> None | Some s' \<Rightarrow> exec ls s')"

text \<open>The number of callback calls made for waiter \<open>t\<close>.\<close>

definition ncb :: "gcip_ikf_awaiter \<Rightarrow> nat \<Rightarrow> nat" where
  "ncb s t = length (filter (\<lambda>c. fst c = t) (callbacks s))"

definition wait_ok :: wait_args where
  "wait_ok = \<lparr>fence_ok = True, kzalloc_thread_ok = True, kthread_create_errno = 0,
              timeout_arg = 100\<rparr>"

subsection \<open>The invariant of the runs\<close>

text \<open>
  For a waiter that is past the test of \<open>kthread_should_stop()\<close> and the callback:
  either it is marked signalled, the test answered false and its callback has been
  called (once, when one is registered), or it is not marked, the test did not answer
  false, its task is being stopped and no callback has been called for it.
\<close>

definition tail_ok :: "gcip_ikf_awaiter \<Rightarrow> nat \<Rightarrow> bool" where
  "tail_ok s t =
     (if signaled (pool s ! t)
      then saw_stop (pool s ! t) = Some False \<and> ncb s t = (if signaled_cb s then 1 else 0)
      else saw_stop (pool s ! t) \<noteq> Some False \<and> should_stop (pool s ! t) \<and> ncb s t = 0)"

definition fresh_ok :: "gcip_ikf_awaiter \<Rightarrow> nat \<Rightarrow> bool" where
  "fresh_ok s t =
     (t \<in> set (threads s) \<and> \<not> release_thread (pool s ! t) \<and> \<not> freed (pool s ! t)
      \<and> ncb s t = 0)"

definition thread_inv :: "gcip_ikf_awaiter \<Rightarrow> nat \<Rightarrow> bool" where
  "thread_inv s t =
     (case t_pc (pool s ! t) of
        T_START \<Rightarrow> fresh_ok s t \<and> \<not> signaled (pool s ! t) \<and> saw_stop (pool s ! t) = None
      | T_WAIT \<Rightarrow> fresh_ok s t \<and> \<not> signaled (pool s ! t) \<and> saw_stop (pool s ! t) = None
      | T_CHECK \<Rightarrow> fresh_ok s t \<and> \<not> signaled (pool s ! t) \<and> saw_stop (pool s ! t) = None
      | T_SET \<Rightarrow> fresh_ok s t \<and> \<not> signaled (pool s ! t) \<and> saw_stop (pool s ! t) = Some False
      | T_CB \<Rightarrow> fresh_ok s t \<and> signaled (pool s ! t) \<and> saw_stop (pool s ! t) = Some False
      | T_OUT \<Rightarrow>
          t \<in> set (threads s) \<and> \<not> release_thread (pool s ! t) \<and> \<not> freed (pool s ! t)
          \<and> tail_ok s t
      | T_REL \<Rightarrow>
          \<not> freed (pool s ! t) \<and> tail_ok s t
          \<and> (release_thread (pool s ! t) \<longleftrightarrow> t \<notin> set (threads s))
          \<and> (release_thread (pool s ! t) \<longrightarrow> signaled (pool s ! t))
      | T_EXITED \<Rightarrow>
          if t \<in> set (threads s)
          then \<not> freed (pool s ! t) \<and> \<not> release_thread (pool s ! t) \<and> tail_ok s t
          else freed (pool s ! t) \<and> ncb s t = (if signaled_cb s then 1 else 0)
               \<and> (signaled (pool s ! t) \<longleftrightarrow> saw_stop (pool s ! t) = Some False))"

text \<open>
  Every call of the callback is for a waiter of the pool. One made by the waiter's
  thread passes the waiter's status and the waiter is marked signalled; one made by
  the exit call passes \<open>-ERESTARTSYS\<close>, for a waiter whose thread has ended without
  the mark.
\<close>

definition cb_inv :: "gcip_ikf_awaiter \<Rightarrow> bool" where
  "cb_inv s =
     (\<forall>c\<in>set (callbacks s).
        fst c < length (pool s)
        \<and> (case snd (snd c) of
             BY_THREAD \<Rightarrow> signaled (pool s ! fst c) \<and> fst (snd c) = wait_status (pool s ! fst c)
                 \<and> t_pc (pool s ! fst c) \<in> {T_OUT, T_REL, T_EXITED}
           | BY_EXIT \<Rightarrow> \<not> signaled (pool s ! fst c) \<and> fst (snd c) = - ERESTARTSYS
                 \<and> t_pc (pool s ! fst c) = T_EXITED \<and> fst c \<notin> set (threads s)))"

definition global_inv :: "gcip_ikf_awaiter \<Rightarrow> bool" where
  "global_inv s =
     (distinct (threads s)
      \<and> (\<forall>t\<in>set (threads s). t < length (pool s))
      \<and> (exit_at s = E_IDLE \<longleftrightarrow> \<not> stop_threads s)
      \<and> (\<forall>t<length (pool s). should_stop (pool s ! t) \<longrightarrow>
            stop_threads s \<and> (exit_at s = E_STOPPING t \<or> t \<notin> set (threads s)))
      \<and> (\<forall>cur. exit_at s = E_STOPPING cur \<longrightarrow>
            cur \<in> set (threads s) \<and> should_stop (pool s ! cur))
      \<and> (exit_at s = E_DONE \<longrightarrow> threads s = [])
      \<and> (exit_at s \<noteq> E_IDLE \<longrightarrow>
            distinct (outstanding s) \<and> set (threads s) \<subseteq> set (outstanding s)
            \<and> (\<forall>t\<in>set (outstanding s). t < length (pool s)
                  \<and> (t \<in> set (threads s) \<or> t_pc (pool s ! t) = T_EXITED))))"

definition awaiter_inv :: "gcip_ikf_awaiter \<Rightarrow> bool" where
  "awaiter_inv s = (global_inv s \<and> cb_inv s \<and> (\<forall>t<length (pool s). thread_inv s t))"

subsection \<open>Three runs\<close>

text \<open>
  A run with one waiter, in three parts. First the waiter is registered, starts, its
  fence wait returns 5, then the exit call sets \<open>stop_threads\<close>, and then the waiter
  tests \<open>kthread_should_stop()\<close>, which the exit call has not yet set for it. Next the
  exit call reaches \<open>kthread_stop\<close> for this waiter. Last the waiter runs to its end
  and the exit call finishes.
\<close>

definition race_prefix :: "label list" where
  "race_prefix = [L_WAIT wait_ok, L_THREAD 0, L_FENCE 0 5, L_EXIT, L_THREAD 0]"

definition race_stop :: "label list" where
  "race_stop = [L_EXIT]"

definition race_rest :: "label list" where
  "race_rest = [L_THREAD 0, L_THREAD 0, L_THREAD 0, L_THREAD 0, L_EXIT, L_EXIT]"

text \<open>The states after the first, the second and the last part.\<close>

definition race_mid :: gcip_ikf_awaiter where
  "race_mid =
     \<lparr>threads = [0], stop_threads = True, signaled_cb = True,
      pool = [\<lparr>t_pc = T_SET, timeout_jiffies = 100, wait_status = 5, signaled = False,
               release_thread = False, should_stop = False, saw_stop = Some False,
               freed = False\<rparr>],
      exit_at = E_LOOP, outstanding = [0], callbacks = []\<rparr>"

definition race_mid2 :: gcip_ikf_awaiter where
  "race_mid2 =
     \<lparr>threads = [0], stop_threads = True, signaled_cb = True,
      pool = [\<lparr>t_pc = T_SET, timeout_jiffies = 100, wait_status = 5, signaled = False,
               release_thread = False, should_stop = True, saw_stop = Some False,
               freed = False\<rparr>],
      exit_at = E_STOPPING 0, outstanding = [0], callbacks = []\<rparr>"

definition race_end :: gcip_ikf_awaiter where
  "race_end =
     \<lparr>threads = [], stop_threads = True, signaled_cb = True,
      pool = [\<lparr>t_pc = T_EXITED, timeout_jiffies = 100, wait_status = 5, signaled = True,
               release_thread = False, should_stop = True, saw_stop = Some False,
               freed = True\<rparr>],
      exit_at = E_DONE, outstanding = [0], callbacks = [(0, 5, BY_THREAD)]\<rparr>"

text \<open>
  A run with two waiters: the first sees its fence signalled and calls the callback
  before the exit call starts; the second is stopped by the exit call before its
  thread first runs.
\<close>

definition run2 :: "label list" where
  "run2 = [L_WAIT wait_ok, L_WAIT wait_ok, L_THREAD 0, L_FENCE 0 5, L_THREAD 0, L_THREAD 0,
           L_EXIT, L_THREAD 0, L_THREAD 0, L_EXIT, L_THREAD 0, L_EXIT, L_EXIT, L_THREAD 1,
           L_EXIT, L_EXIT]"

definition run2_end :: gcip_ikf_awaiter where
  "run2_end =
     \<lparr>threads = [], stop_threads = True, signaled_cb = True,
      pool = [\<lparr>t_pc = T_EXITED, timeout_jiffies = 100, wait_status = 5, signaled = True,
               release_thread = False, should_stop = True, saw_stop = Some False,
               freed = True\<rparr>,
              \<lparr>t_pc = T_EXITED, timeout_jiffies = 100, wait_status = 100, signaled = False,
               release_thread = False, should_stop = True, saw_stop = None,
               freed = True\<rparr>],
      exit_at = E_DONE, outstanding = [0, 1],
      callbacks = [(0, 5, BY_THREAD), (1, - 512, BY_EXIT)]\<rparr>"

text \<open>
  A run with one waiter that sees its fence signalled, calls the callback and takes
  itself off the list in its critical section, all before the exit call sets
  \<open>stop_threads\<close>; the exit call then finds the list empty and returns. The state when
  it has returned, and the state after the one transition the waiter still makes.
\<close>

definition late_run :: "label list" where
  "late_run = [L_WAIT wait_ok, L_THREAD 0, L_FENCE 0 5, L_THREAD 0, L_THREAD 0, L_THREAD 0,
               L_THREAD 0, L_EXIT, L_EXIT]"

definition late_end :: gcip_ikf_awaiter where
  "late_end =
     \<lparr>threads = [], stop_threads = True, signaled_cb = True,
      pool = [\<lparr>t_pc = T_REL, timeout_jiffies = 100, wait_status = 5, signaled = True,
               release_thread = True, should_stop = False, saw_stop = Some False,
               freed = False\<rparr>],
      exit_at = E_DONE, outstanding = [], callbacks = [(0, 5, BY_THREAD)]\<rparr>"

definition late_freed :: gcip_ikf_awaiter where
  "late_freed =
     \<lparr>threads = [], stop_threads = True, signaled_cb = True,
      pool = [\<lparr>t_pc = T_EXITED, timeout_jiffies = 100, wait_status = 5, signaled = True,
               release_thread = True, should_stop = False, saw_stop = Some False,
               freed = True\<rparr>],
      exit_at = E_DONE, outstanding = [], callbacks = [(0, 5, BY_THREAD)]\<rparr>"

subsection \<open>Notions used for the return of the exit call\<close>

text \<open>The number of transitions a waiter is at most away from the end of its thread.\<close>

fun rank :: "thread_pc \<Rightarrow> nat" where
  "rank T_START = 7"
| "rank T_WAIT = 6"
| "rank T_CHECK = 5"
| "rank T_SET = 4"
| "rank T_CB = 3"
| "rank T_OUT = 2"
| "rank T_REL = 1"
| "rank T_EXITED = 0"

text \<open>
  The transitions that the exit call and the waiters it stops make by themselves: no
  new wait, and a fence wait returns only as interrupted.
\<close>

definition stop_label :: "label \<Rightarrow> bool" where
  "stop_label l =
     (case l of
        L_WAIT a \<Rightarrow> False
      | L_THREAD t \<Rightarrow> True
      | L_FENCE t r \<Rightarrow> r = - ERESTARTSYS
      | L_EXIT \<Rightarrow> True)"

text \<open>What a transition of a waiter leaves as it is, once \<open>stop_threads\<close> is set.\<close>

definition same_exit :: "gcip_ikf_awaiter \<Rightarrow> gcip_ikf_awaiter \<Rightarrow> bool" where
  "same_exit s s' =
     (exit_at s' = exit_at s \<and> threads s' = threads s \<and> length (pool s') = length (pool s)
      \<and> stop_threads s')"
section \<open>Results on the mapping tracker\<close>

subsection \<open>Order and membership\<close>

lemma set_rb_link:
  "rb_link t m = Some t' \<Longrightarrow> set_tree t' = insert m (set_tree t)"
  by (induction t arbitrary: t') (auto simp: Let_def split: if_splits option.splits)

lemma rb_ordered_Leaf [simp]: "rb_ordered Leaf"
  by (simp add: rb_ordered_def)

lemma rb_ordered_Node:
  "rb_ordered (Node l m r) \<longleftrightarrow>
     rb_ordered l \<and> rb_ordered r \<and>
     (\<forall>x\<in>set_tree l. device_address (gcip_mapping x) < device_address (gcip_mapping m)) \<and>
     (\<forall>x\<in>set_tree r. device_address (gcip_mapping m) < device_address (gcip_mapping x))"
  unfolding rb_ordered_def by (auto simp: sorted_wrt_append intro: less_trans)

text \<open>The descent fails exactly when the device address is already in the tree.\<close>

lemma rb_link_None:
  "rb_ordered t \<Longrightarrow>
   rb_link t m = None \<longleftrightarrow>
     (\<exists>x\<in>set_tree t. device_address (gcip_mapping x) = device_address (gcip_mapping m))"
proof (induction t)
  case Leaf
  then show ?case by simp
next
  case (Node l x r)
  from Node.prems have ol: "rb_ordered l" and or: "rb_ordered r"
    and L: "\<forall>y\<in>set_tree l. device_address (gcip_mapping y) < device_address (gcip_mapping x)"
    and R: "\<forall>y\<in>set_tree r. device_address (gcip_mapping x) < device_address (gcip_mapping y)"
    by (simp_all add: rb_ordered_Node)
  consider (gt) "device_address (gcip_mapping m) < device_address (gcip_mapping x)"
    | (lt) "device_address (gcip_mapping x) < device_address (gcip_mapping m)"
    | (eq) "device_address (gcip_mapping x) = device_address (gcip_mapping m)"
    by fastforce
  then show ?case
  proof cases
    case gt
    then have c: "compare x (device_address (gcip_mapping m)) = 1"
      by (auto simp: compare_def)
    from gt R have "\<forall>y\<in>set_tree r. device_address (gcip_mapping y) \<noteq> device_address (gcip_mapping m)"
      by fastforce
    with gt Node.IH(1)[OF ol] c show ?thesis
      by (auto split: option.splits)
  next
    case lt
    then have c: "compare x (device_address (gcip_mapping m)) = - 1"
      by (auto simp: compare_def)
    from lt L have "\<forall>y\<in>set_tree l. device_address (gcip_mapping y) \<noteq> device_address (gcip_mapping m)"
      by fastforce
    with lt Node.IH(2)[OF or] c show ?thesis
      by (auto split: option.splits)
  next
    case eq
    then have c: "compare x (device_address (gcip_mapping m)) = 0"
      by (auto simp: compare_def)
    with eq show ?thesis by auto
  qed
qed

lemma rb_link_ordered:
  "rb_ordered t \<Longrightarrow> rb_link t m = Some t' \<Longrightarrow> rb_ordered t'"
proof (induction t arbitrary: t')
  case Leaf
  then show ?case by (auto simp: rb_ordered_Node)
next
  case (Node l x r)
  from Node.prems(1) have ol: "rb_ordered l" and or: "rb_ordered r"
    and L: "\<forall>y\<in>set_tree l. device_address (gcip_mapping y) < device_address (gcip_mapping x)"
    and R: "\<forall>y\<in>set_tree r. device_address (gcip_mapping x) < device_address (gcip_mapping y)"
    by (simp_all add: rb_ordered_Node)
  show ?case
  proof (cases "compare x (device_address (gcip_mapping m)) > 0")
    case True
    then have gt: "device_address (gcip_mapping m) < device_address (gcip_mapping x)"
      by (auto simp: compare_def split: if_splits)
    from True Node.prems(2) obtain l' where l': "rb_link l m = Some l'" and t': "t' = Node l' x r"
      by (auto simp: Let_def split: option.splits)
    from Node.IH(1)[OF ol l'] set_rb_link[OF l'] gt or L R show ?thesis
      unfolding t' by (simp add: rb_ordered_Node)
  next
    case False
    with Node.prems(2) have lt: "compare x (device_address (gcip_mapping m)) < 0"
      by (auto simp: Let_def split: if_splits)
    then have lt': "device_address (gcip_mapping x) < device_address (gcip_mapping m)"
      by (auto simp: compare_def split: if_splits)
    from False lt Node.prems(2) obtain r' where r': "rb_link r m = Some r'" and t': "t' = Node l x r'"
      by (auto simp: Let_def split: option.splits)
    from Node.IH(2)[OF or r'] set_rb_link[OF r'] lt' ol L R show ?thesis
      unfolding t' by (simp add: rb_ordered_Node)
  qed
qed

lemma set_tree_inorder_eq: "inorder t = inorder t' \<Longrightarrow> set_tree t = set_tree t'"
  by (metis set_inorder)

subsection \<open>Insertion\<close>

text \<open>
  Claim C9. For every tracker state, adding a mapping whose release callback is not
  set returns -EINVAL and leaves the tracker as it was; the tree is not looked at,
  so this holds whether or not the device address is already present.
\<close>

theorem edgetpu_mapping_add_no_release:
  "release m = None \<Longrightarrow>
   edgetpu_mapping_add rb_insert_color mappings m = (- EINVAL, mappings)"
  by (simp add: edgetpu_mapping_add_def)

text \<open>
  At a tracker that already holds the device address \<open>0x1000\<close>, a mapping at
  \<open>0x1000\<close> without a release callback gets -EINVAL, not -EBUSY.
\<close>

theorem edgetpu_mapping_add_no_release_witness:
  "edgetpu_mapping_add rb_no_rebalance
     \<lparr>rb = Node Leaf (mk_mapping 0x1000 0x1000) Leaf, count = 1\<rparr>
     ((mk_mapping 0x1000 0x1000)\<lparr>release := None\<rparr>)
   = (- EINVAL, \<lparr>rb = Node Leaf (mk_mapping 0x1000 0x1000) Leaf, count = 1\<rparr>)"
  using edgetpu_mapping_add_no_release [of "(mk_mapping 0x1000 0x1000)\<lparr>release := None\<rparr>" rb_no_rebalance
    "\<lparr>rb = Node Leaf (mk_mapping 0x1000 0x1000) Leaf, count = 1\<rparr>"]
  by (simp add: mk_mapping_def)

text \<open>
  Claim C2, as stated, fails: the descent compares device addresses only. The ranges
  \<open>[0x1000, 0x3000)\<close> and \<open>[0x2000, 0x4000)\<close> overlap, and adding the second after
  the first returns 0 and leaves both in the tree.
\<close>

theorem mapping_add_overlap_counterexample:
  "ranges_overlap (mk_mapping 0x1000 0x2000) (mk_mapping 0x2000 0x2000)
   \<and> edgetpu_mapping_add rb_no_rebalance
        (snd (edgetpu_mapping_add rb_no_rebalance edgetpu_mapping_init (mk_mapping 0x1000 0x2000)))
        (mk_mapping 0x2000 0x2000)
     = (0, \<lparr>rb = Node Leaf (mk_mapping 0x1000 0x2000) (Node Leaf (mk_mapping 0x2000 0x2000) Leaf),
             count = 2\<rparr>)"
  by (simp add: ranges_overlap_def range_start_def range_end_def mk_mapping_def
      edgetpu_mapping_add_def edgetpu_mapping_init_def rb_no_rebalance_def compare_def)

text \<open>
  Claim C2, amended. For every tracker ordered by device address and every mapping
  with a release callback, where \<open>rb_insert_color\<close> keeps the in-order sequence:
  if a mapping with the same device address is present, the call returns -EBUSY and
  the tracker is unchanged; if none is, the call returns 0, the new mapping joins the
  set of mappings, the order is kept and the count grows by one.
\<close>

theorem mapping_add_same_address:
  assumes rebal: "\<And>t. inorder (rb_insert_color t) = inorder t"
    and ord: "rb_ordered (rb mappings)"
    and rel: "release m \<noteq> None"
  shows "((\<exists>x\<in>set_tree (rb mappings). device_address (gcip_mapping x) = device_address (gcip_mapping m)) \<longrightarrow>
            edgetpu_mapping_add rb_insert_color mappings m = (- EBUSY, mappings))
       \<and> ((\<forall>x\<in>set_tree (rb mappings). device_address (gcip_mapping x) \<noteq> device_address (gcip_mapping m)) \<longrightarrow>
            fst (edgetpu_mapping_add rb_insert_color mappings m) = 0
          \<and> set_tree (rb (snd (edgetpu_mapping_add rb_insert_color mappings m))) = insert m (set_tree (rb mappings))
          \<and> rb_ordered (rb (snd (edgetpu_mapping_add rb_insert_color mappings m)))
          \<and> count (snd (edgetpu_mapping_add rb_insert_color mappings m)) = count mappings + 1)"
proof (cases "rb_link (rb mappings) m")
  case None
  with rb_link_None[OF ord, of m] rel show ?thesis
    by (auto simp: edgetpu_mapping_add_def)
next
  case (Some t')
  with rb_link_None[OF ord, of m] have fresh:
    "\<forall>x\<in>set_tree (rb mappings). device_address (gcip_mapping x) \<noteq> device_address (gcip_mapping m)"
    by auto
  have o': "rb_ordered (rb_insert_color t')"
    using rb_link_ordered[OF ord Some] by (simp add: rb_ordered_def rebal)
  have s': "set_tree (rb_insert_color t') = insert m (set_tree (rb mappings))"
    using set_rb_link[OF Some] set_tree_inorder_eq[OF rebal, of t'] by simp
  from Some rel fresh o' s' show ?thesis
    by (auto simp: edgetpu_mapping_add_def)
qed

theorem mapping_add_same_address_witness:
  "edgetpu_mapping_add rb_no_rebalance
      \<lparr>rb = Node Leaf (mk_mapping 0x1000 0x2000) Leaf, count = 1\<rparr> (mk_mapping 0x1000 0x80)
     = (- EBUSY, \<lparr>rb = Node Leaf (mk_mapping 0x1000 0x2000) Leaf, count = 1\<rparr>)
   \<and> fst (edgetpu_mapping_add rb_no_rebalance
      \<lparr>rb = Node Leaf (mk_mapping 0x1000 0x2000) Leaf, count = 1\<rparr> (mk_mapping 0x2000 0x2000)) = 0"
proof -
  have r: "\<And>t. inorder (rb_no_rebalance t) = inorder t" by (simp add: rb_no_rebalance_def)
  have o: "rb_ordered (rb \<lparr>rb = Node Leaf (mk_mapping 0x1000 0x2000) Leaf, count = 1\<rparr>)"
    by (simp add: rb_ordered_def)
  have r1: "release (mk_mapping 0x1000 0x80) \<noteq> None" by (simp add: mk_mapping_def)
  have r2: "release (mk_mapping 0x2000 0x2000) \<noteq> None" by (simp add: mk_mapping_def)
  from mapping_add_same_address [OF r o r1] mapping_add_same_address [OF r o r2]
  show ?thesis by (simp add: mk_mapping_def)
qed

subsection \<open>Lookup by address range\<close>

lemma in_range_iff:
  "range_end m < 2 ^ 64 \<Longrightarrow> in_range m a \<longleftrightarrow> iova_in_mapping m a = 0"
proof -
  assume h: "range_end m < 2 ^ 64"
  then have e: "unat (device_address (gcip_mapping m) + size_bytes (gcip_mapping m))
      = unat (device_address (gcip_mapping m)) + unat (size_bytes (gcip_mapping m))"
    by (simp add: range_end_def unat_word_ariths)
  show ?thesis
    unfolding in_range_def iova_in_mapping_def range_start_def range_end_def
    using e by (simp add: word_le_nat_alt word_less_nat_alt)
qed

text \<open>
  \<open>ranges_overlap\<close> says that an address lies in both ranges. Two mappings that
  neither overlap nor lie, empty, inside one another are apart: the one that starts
  first ends at or before the start of the other.
\<close>

lemma ranges_overlap_iff:
  "ranges_overlap m1 m2 \<longleftrightarrow>
     (\<exists>a. range_start m1 \<le> a \<and> a < range_end m1 \<and> range_start m2 \<le> a \<and> a < range_end m2)"
proof
  assume "ranges_overlap m1 m2"
  then have "range_start m1 \<le> max (range_start m1) (range_start m2)
      \<and> max (range_start m1) (range_start m2) < range_end m1
      \<and> range_start m2 \<le> max (range_start m1) (range_start m2)
      \<and> max (range_start m1) (range_start m2) < range_end m2"
    by (simp add: ranges_overlap_def)
  then show "\<exists>a. range_start m1 \<le> a \<and> a < range_end m1 \<and> range_start m2 \<le> a \<and> a < range_end m2"
    by blast
next
  assume "\<exists>a. range_start m1 \<le> a \<and> a < range_end m1 \<and> range_start m2 \<le> a \<and> a < range_end m2"
  then show "ranges_overlap m1 m2" by (auto simp: ranges_overlap_def)
qed

lemma ranges_apart:
  assumes "\<not> ranges_overlap m1 m2" and "\<not> empty_inside m1 m2" and "\<not> empty_inside m2 m1"
    and "range_start m1 < range_start m2"
  shows "range_end m1 \<le> range_start m2"
proof (rule ccontr)
  assume "\<not> range_end m1 \<le> range_start m2"
  then have lt: "range_start m2 < range_end m1" by simp
  show False
  proof (cases "size_bytes (gcip_mapping m2) = 0")
    case True
    with assms(3,4) lt show False by (simp add: empty_inside_def)
  next
    case False
    then have "range_start m2 < range_end m2"
      by (simp add: range_start_def range_end_def unat_gt_0)
    with assms(1,4) lt show False by (simp add: ranges_overlap_def)
  qed
qed

lemma tracker_ranges_ok_Node:
  "tracker_ranges_ok (Node l m r) \<Longrightarrow> tracker_ranges_ok l \<and> tracker_ranges_ok r"
  by (auto simp: tracker_ranges_ok_def rb_ordered_Node)

lemma find_iova_range_sound:
  "edgetpu_mapping_find_iova_range t a = Some m \<Longrightarrow> m \<in> set_tree t \<and> iova_in_mapping m a = 0"
  by (induction t) (auto simp: Let_def split: if_splits)

lemma find_iova_range_complete:
  "tracker_ranges_ok t \<Longrightarrow> m \<in> set_tree t \<Longrightarrow> in_range m a \<Longrightarrow>
   edgetpu_mapping_find_iova_range t a = Some m"
proof (induction t)
  case Leaf
  then show ?case by simp
next
  case (Node l x r)
  from Node.prems(1) have okl: "tracker_ranges_ok l" and okr: "tracker_ranges_ok r"
    using tracker_ranges_ok_Node by blast+
  from Node.prems(1) have
    L: "\<forall>y\<in>set_tree l. device_address (gcip_mapping y) < device_address (gcip_mapping x)"
    and R: "\<forall>y\<in>set_tree r. device_address (gcip_mapping x) < device_address (gcip_mapping y)"
    and xs: "range_end x < 2 ^ 64"
    and nov: "m \<noteq> x \<Longrightarrow>
                \<not> ranges_overlap m x \<and> \<not> empty_inside m x \<and> \<not> empty_inside x m
                \<and> \<not> ranges_overlap x m"
    using Node.prems(2) by (auto simp: tracker_ranges_ok_def rb_ordered_Node)
  have ex: "unat (device_address (gcip_mapping x) + size_bytes (gcip_mapping x)) = range_end x"
    using xs by (simp add: range_end_def unat_word_ariths)
  show ?case
  proof (cases "m = x")
    case True
    with Node.prems(3) xs have "iova_in_mapping x a = 0"
      using in_range_iff by blast
    with True show ?thesis by simp
  next
    case False
    with nov have nov': "\<not> ranges_overlap m x" "\<not> empty_inside m x" "\<not> empty_inside x m"
      "\<not> ranges_overlap x m" by simp_all
    from False Node.prems(2) consider (l) "m \<in> set_tree l" | (r) "m \<in> set_tree r" by auto
    then show ?thesis
    proof cases
      case l
      with L have lt: "range_start m < range_start x"
        by (auto simp: range_start_def word_less_nat_alt)
      have se: "range_start x \<le> range_end x" by (simp add: range_start_def range_end_def)
      from ranges_apart [OF nov'(1) nov'(2) nov'(3) lt] have "range_end m \<le> range_start x" .
      with Node.prems(3) have "unat a < range_start x" by (simp add: in_range_def)
      then have "iova_in_mapping x a = 1"
        using ex se by (auto simp: iova_in_mapping_def word_le_nat_alt word_less_nat_alt range_start_def)
      with Node.IH(1)[OF okl l Node.prems(3)] show ?thesis by simp
    next
      case r
      with R have lt: "range_start x < range_start m"
        by (auto simp: range_start_def word_less_nat_alt)
      from Node.prems(3) have am: "range_start m \<le> unat a" "unat a < range_end m"
        by (simp_all add: in_range_def)
      from ranges_apart [OF nov'(4) nov'(3) nov'(2) lt] have "range_end x \<le> range_start m" .
      with am have "range_end x \<le> unat a" by simp
      then have "iova_in_mapping x a = - 1"
        using ex by (auto simp: iova_in_mapping_def word_le_nat_alt)
      with Node.IH(2)[OF okr r Node.prems(3)] show ?thesis by simp
    qed
  qed
qed

text \<open>
  Claim C4, as stated, fails. A mapping of size 0 has an empty range and overlaps no
  other mapping, but the descent still compares the address with it: every address
  from its device address upwards compares as lying above it, and the descent turns
  right there. The tracker below is built by two calls of \<open>edgetpu_mapping_add\<close>,
  first the empty mapping at \<open>0x2000\<close>, then \<open>[0x1000, 0x3000)\<close>; the two ranges do
  not overlap and end far below \<open>2^64\<close>; \<open>0x2800\<close> lies in the second; the lookup
  returns NULL.
\<close>

theorem find_iova_range_empty_counterexample:
  "edgetpu_mapping_add rb_no_rebalance
        (snd (edgetpu_mapping_add rb_no_rebalance edgetpu_mapping_init
               (mk_mapping 0x2000 0)))
        (mk_mapping 0x1000 0x2000)
     = (0, \<lparr>rb = Node (Node Leaf (mk_mapping 0x1000 0x2000) Leaf)
                       (mk_mapping 0x2000 0) Leaf, count = 2\<rparr>)
   \<and> \<not> ranges_overlap (mk_mapping 0x1000 0x2000) (mk_mapping 0x2000 0)
   \<and> \<not> ranges_overlap (mk_mapping 0x2000 0) (mk_mapping 0x1000 0x2000)
   \<and> range_end (mk_mapping 0x1000 0x2000) = 0x3000
   \<and> range_end (mk_mapping 0x2000 0) = 0x2000
   \<and> in_range (mk_mapping 0x1000 0x2000) 0x2800
   \<and> edgetpu_mapping_find_iova_range
        (Node (Node Leaf (mk_mapping 0x1000 0x2000) Leaf) (mk_mapping 0x2000 0) Leaf)
        0x2800 = None"
  by (simp add: ranges_overlap_def range_start_def range_end_def mk_mapping_def in_range_def
      edgetpu_mapping_add_def edgetpu_mapping_init_def rb_no_rebalance_def compare_def
      iova_in_mapping_def)

text \<open>
  Where a range reaches the top of the 64-bit address space, the sum
  \<open>device_address + size\<close> of \<open>iova_in_mapping\<close> wraps to 0: the function answers -1,
  "the range is less than the address", for every address, those inside the range
  included, against what its own comment says it returns, and the descent turns right
  at such a node, away from the mappings at lower addresses. Nothing is stated below
  for a tracker that holds such a range.
\<close>

lemma iova_in_mapping_wrap:
  "in_range (mk_mapping 0xFFFFFFFFFFFFF000 0x1000) 0xFFFFFFFFFFFFF800
   \<and> iova_in_mapping (mk_mapping 0xFFFFFFFFFFFFF000 0x1000) 0xFFFFFFFFFFFFF800 = - 1
   \<and> in_range (mk_mapping 0x1000 0x1000) 0x1800
   \<and> edgetpu_mapping_find_iova_range
        (Node (Node Leaf (mk_mapping 0x1000 0x1000) Leaf) (mk_mapping 0xFFFFFFFFFFFFF000 0x1000) Leaf)
        0x1800 = None"
  by (simp add: range_start_def range_end_def mk_mapping_def in_range_def iova_in_mapping_def)

text \<open>
  Claim C4, amended. For every tracker that is ordered by device address, whose
  mappings pairwise do not overlap, with no mapping of size 0 lying strictly inside
  the range of another, and whose ranges all end below \<open>2^64\<close>, and for every address
  \<open>a\<close>: the lookup returns a mapping \<open>m\<close> exactly when \<open>m\<close> is in the tracker and
  \<open>device_address \<le> a < device_address + size\<close>, and returns NULL exactly when no
  mapping of the tracker contains \<open>a\<close>.
\<close>

theorem find_iova_range_correct:
  assumes "tracker_ranges_ok t"
  shows "(edgetpu_mapping_find_iova_range t a = Some m \<longleftrightarrow> m \<in> set_tree t \<and> in_range m a)
       \<and> (edgetpu_mapping_find_iova_range t a = None \<longleftrightarrow> (\<forall>x\<in>set_tree t. \<not> in_range x a))"
proof -
  have s: "\<And>y. edgetpu_mapping_find_iova_range t a = Some y \<Longrightarrow> y \<in> set_tree t \<and> in_range y a"
  proof -
    fix y assume f: "edgetpu_mapping_find_iova_range t a = Some y"
    from find_iova_range_sound[OF f] have y: "y \<in> set_tree t" and z: "iova_in_mapping y a = 0" by simp_all
    from assms y have "range_end y < 2 ^ 64" by (simp add: tracker_ranges_ok_def)
    with z y show "y \<in> set_tree t \<and> in_range y a" using in_range_iff by blast
  qed
  have c: "\<And>y. y \<in> set_tree t \<Longrightarrow> in_range y a \<Longrightarrow> edgetpu_mapping_find_iova_range t a = Some y"
    using find_iova_range_complete[OF assms] by blast
  from s c show ?thesis
    by (cases "edgetpu_mapping_find_iova_range t a") auto
qed

theorem find_iova_range_correct_witness:
  "edgetpu_mapping_find_iova_range
     (Node (Node Leaf (mk_mapping 0x1000 0x1000) Leaf) (mk_mapping 0x4000 0x3000) Leaf) 0x1800
     = Some (mk_mapping 0x1000 0x1000)
   \<and> edgetpu_mapping_find_iova_range
     (Node (Node Leaf (mk_mapping 0x1000 0x1000) Leaf) (mk_mapping 0x4000 0x3000) Leaf) 0x2000
     = None"
proof -
  have ok: "tracker_ranges_ok
     (Node (Node Leaf (mk_mapping 0x1000 0x1000) Leaf) (mk_mapping 0x4000 0x3000) Leaf)"
    by (simp add: tracker_ranges_ok_def rb_ordered_def ranges_overlap_def empty_inside_def
        range_start_def range_end_def mk_mapping_def)
  have i: "in_range (mk_mapping 0x1000 0x1000) 0x1800"
    by (simp add: in_range_def range_start_def range_end_def mk_mapping_def)
  have n: "\<forall>x\<in>set_tree (Node (Node Leaf (mk_mapping 0x1000 0x1000) Leaf) (mk_mapping 0x4000 0x3000) Leaf).
      \<not> in_range x 0x2000"
    by (simp add: in_range_def range_start_def range_end_def mk_mapping_def)
  from find_iova_range_correct [OF ok, of "0x1800" "mk_mapping 0x1000 0x1000"]
       find_iova_range_correct [OF ok, of "0x2000"] i n
  show ?thesis by simp
qed

subsection \<open>Total size\<close>

lemma fold_total:
  "fold (\<lambda>m total. total + f m) xs (a :: u64) = a + sum_list (map f xs)"
  by (induction xs arbitrary: a) (simp_all add: add.assoc)

lemma unat_sum_list:
  "unat (sum_list (map f xs) :: u64) = sum_list (map (\<lambda>x. unat (f x)) xs) mod 2 ^ 64"
proof (induction xs)
  case Nil
  then show ?case by simp
next
  case (Cons x xs)
  have "unat (f x + sum_list (map f xs)) = (unat (f x) + unat (sum_list (map f xs))) mod 2 ^ 64"
    by (simp add: unat_word_ariths)
  also have "\<dots> = (unat (f x) + sum_list (map (\<lambda>x. unat (f x)) xs) mod 2 ^ 64) mod 2 ^ 64"
    by (simp only: Cons.IH)
  also have "\<dots> = (unat (f x) + sum_list (map (\<lambda>x. unat (f x)) xs)) mod 2 ^ 64"
    by (rule mod_add_right_eq)
  finally show ?case by simp
qed

text \<open>
  Claim C8, as stated, fails when the sizes add up to \<open>2^64\<close> or more: the accumulator
  and the return type are \<open>size_t\<close>. The tracker below is built by two calls of
  \<open>edgetpu_mapping_add\<close>; its ranges \<open>[0, 2^63)\<close> and \<open>[2^63, 2^64)\<close> do not overlap;
  the sizes add up to \<open>2^64\<close>; the function returns 0.
\<close>

theorem total_size_wrap_counterexample:
  "edgetpu_mapping_add rb_no_rebalance
        (snd (edgetpu_mapping_add rb_no_rebalance edgetpu_mapping_init
               (mk_mapping 0 0x8000000000000000)))
        (mk_mapping 0x8000000000000000 0x8000000000000000)
     = (0, \<lparr>rb = Node Leaf (mk_mapping 0 0x8000000000000000)
                       (Node Leaf (mk_mapping 0x8000000000000000 0x8000000000000000) Leaf),
             count = 2\<rparr>)
   \<and> \<not> ranges_overlap (mk_mapping 0 0x8000000000000000)
          (mk_mapping 0x8000000000000000 0x8000000000000000)
   \<and> unat (size_bytes (gcip_mapping (mk_mapping 0 0x8000000000000000)))
       + unat (size_bytes (gcip_mapping (mk_mapping 0x8000000000000000 0x8000000000000000)))
       = 2 ^ 64
   \<and> edgetpu_mappings_total_size
        \<lparr>rb = Node Leaf (mk_mapping 0 0x8000000000000000)
                  (Node Leaf (mk_mapping 0x8000000000000000 0x8000000000000000) Leaf),
         count = 2\<rparr> = 0"
  by (simp add: ranges_overlap_def range_start_def range_end_def mk_mapping_def
      edgetpu_mapping_add_def edgetpu_mapping_init_def rb_no_rebalance_def compare_def
      edgetpu_mappings_total_size_def)

text \<open>
  Claim C8, amended. For every tracker state the function returns the sum of the
  sizes of the mappings in the tree reduced modulo \<open>2^64\<close> (the sum in the \<open>size_t\<close>
  arithmetic of its accumulator and return type): exactly the sum whenever that is
  below \<open>2^64\<close>. For the empty tracker it returns 0.
\<close>

theorem total_size_sum:
  "edgetpu_mappings_total_size mappings
     = sum_list (map (\<lambda>m. size_bytes (gcip_mapping m)) (inorder (rb mappings)))
   \<and> unat (edgetpu_mappings_total_size mappings)
     = sum_list (map (\<lambda>m. unat (size_bytes (gcip_mapping m))) (inorder (rb mappings))) mod 2 ^ 64
   \<and> (sum_list (map (\<lambda>m. unat (size_bytes (gcip_mapping m))) (inorder (rb mappings))) < 2 ^ 64 \<longrightarrow>
      unat (edgetpu_mappings_total_size mappings)
        = sum_list (map (\<lambda>m. unat (size_bytes (gcip_mapping m))) (inorder (rb mappings))))
   \<and> edgetpu_mappings_total_size edgetpu_mapping_init = 0"
proof -
  have w: "edgetpu_mappings_total_size mappings
     = sum_list (map (\<lambda>m. size_bytes (gcip_mapping m)) (inorder (rb mappings)))"
    by (simp add: edgetpu_mappings_total_size_def fold_total)
  have n: "unat (edgetpu_mappings_total_size mappings)
     = sum_list (map (\<lambda>m. unat (size_bytes (gcip_mapping m))) (inorder (rb mappings))) mod 2 ^ 64"
    unfolding w by (rule unat_sum_list)
  have z: "edgetpu_mappings_total_size edgetpu_mapping_init = 0"
    by (simp add: edgetpu_mappings_total_size_def edgetpu_mapping_init_def)
  from w n z show ?thesis by simp
qed

theorem total_size_sum_witness:
  "unat (edgetpu_mappings_total_size
      \<lparr>rb = Node (Node Leaf (mk_mapping 0x1000 0x1000) Leaf) (mk_mapping 0x4000 0x3000) Leaf, count = 2\<rparr>)
   = 0x4000"
  using total_size_sum [of "\<lparr>rb = Node (Node Leaf (mk_mapping 0x1000 0x1000) Leaf) (mk_mapping 0x4000 0x3000) Leaf, count = 2\<rparr>"]
  by (simp add: mk_mapping_def)


section \<open>Results on the VII response codes\<close>

section \<open>Results on the wakelock calls\<close>

lemma events_emit [simp]: "events (emit e s) = events s @ [e]"
  by (simp add: emit_def)

lemma client_emit [simp]: "client (emit e s) = client s"
  by (simp add: emit_def)

lemma events_LOCK [simp]: "events (LOCK s) = events s" "events (UNLOCK s) = events s"
  by (simp_all add: LOCK_def UNLOCK_def)

lemma client_LOCK [simp]: "client (LOCK s) = client s" "client (UNLOCK s) = client s"
  by (simp_all add: LOCK_def UNLOCK_def)

lemma acq_thermal:
  "thermal_suspended env \<Longrightarrow> edgetpu_ioctl_acquire_wakelock env s = (- EAGAIN, s)"
  by (simp add: edgetpu_ioctl_acquire_wakelock_def)

lemma acq_pm_fail:
  "\<not> thermal_suspended env \<Longrightarrow> pm_get_ret env \<noteq> 0 \<Longrightarrow>
   edgetpu_ioctl_acquire_wakelock env s = (pm_get_ret env, emit (PM_GET (pm_get_ret env)) s)"
  by (simp add: edgetpu_ioctl_acquire_wakelock_def Let_def)

lemma acq_overflow:
  assumes "\<not> thermal_suspended env" "pm_get_ret env = 0" "sint (req_count (wakelock (client s))) < 0"
  shows "fst (edgetpu_ioctl_acquire_wakelock env s) = - EOVERFLOW"
    and "events (snd (edgetpu_ioctl_acquire_wakelock env s)) = events s @ [PM_GET 0, PM_PUT]"
    and "req_count (wakelock (client (snd (edgetpu_ioctl_acquire_wakelock env s))))
           = req_count (wakelock (client s))"
  using assms
  by (simp_all add: edgetpu_ioctl_acquire_wakelock_def Let_def edgetpu_wakelock_acquire_def errno_defs)

lemma acq_more:
  assumes "\<not> thermal_suspended env" "pm_get_ret env = 0" "0 < sint (req_count (wakelock (client s)))"
  shows "fst (edgetpu_ioctl_acquire_wakelock env s) = 0"
    and "events (snd (edgetpu_ioctl_acquire_wakelock env s)) = events s @ [PM_GET 0]"
    and "req_count (wakelock (client (snd (edgetpu_ioctl_acquire_wakelock env s))))
           = req_count (wakelock (client s)) + 1"
  using assms
  by (simp_all add: edgetpu_ioctl_acquire_wakelock_def Let_def edgetpu_wakelock_acquire_def)

lemma acq_first_nogroup:
  assumes "\<not> thermal_suspended env" "pm_get_ret env = 0" "req_count (wakelock (client s)) = 0"
    "group (client s) = None"
  shows "fst (edgetpu_ioctl_acquire_wakelock env s) = 0"
    and "events (snd (edgetpu_ioctl_acquire_wakelock env s)) = events s @ [PM_GET 0]"
    and "req_count (wakelock (client (snd (edgetpu_ioctl_acquire_wakelock env s)))) = 1"
  using assms
  by (simp_all add: edgetpu_ioctl_acquire_wakelock_def Let_def edgetpu_wakelock_acquire_def)

lemma acq_first_group_ok:
  assumes "\<not> thermal_suspended env" "pm_get_ret env = 0" "req_count (wakelock (client s)) = 0"
    "group (client s) = Some g" "attach_ret env = 0"
  shows "fst (edgetpu_ioctl_acquire_wakelock env s) = 0"
    and "events (snd (edgetpu_ioctl_acquire_wakelock env s))
           = events s @ [PM_GET 0, GROUP_ATTACH_AND_OPEN_MAILBOX g 0]"
    and "req_count (wakelock (client (snd (edgetpu_ioctl_acquire_wakelock env s)))) = 1"
  using assms
  by (simp_all add: edgetpu_ioctl_acquire_wakelock_def Let_def edgetpu_wakelock_acquire_def)

lemma acq_first_group_fail:
  assumes "\<not> thermal_suspended env" "pm_get_ret env = 0" "req_count (wakelock (client s)) = 0"
    "group (client s) = Some g" "attach_ret env \<noteq> 0"
  shows "fst (edgetpu_ioctl_acquire_wakelock env s) = attach_ret env"
    and "events (snd (edgetpu_ioctl_acquire_wakelock env s))
           = events s @ [PM_GET 0, GROUP_ATTACH_AND_OPEN_MAILBOX g (attach_ret env), PM_PUT]"
    and "req_count (wakelock (client (snd (edgetpu_ioctl_acquire_wakelock env s)))) = 0"
  using assms
  by (simp_all add: edgetpu_ioctl_acquire_wakelock_def Let_def edgetpu_wakelock_acquire_def
      edgetpu_wakelock_release_def)

lemma new_events_append [simp]: "events s' = events s @ xs \<Longrightarrow> new_events s s' = xs"
  by (simp add: new_events_def)

lemma new_events_same [simp]: "new_events s s = []"
  by (simp add: new_events_def)

text \<open>The seven ways through the acquire call, and what each leaves behind.\<close>

lemma sint_zero_iff: "sint (w :: u32) = 0 \<longleftrightarrow> w = 0"
  by (simp add: signed_eq_0_iff)

lemma acquire_paths:
  obtains
    (Thermal) "new_events s (snd (edgetpu_ioctl_acquire_wakelock env s)) = []"
      "req_count (wakelock (client (snd (edgetpu_ioctl_acquire_wakelock env s))))
         = req_count (wakelock (client s))"
  | (PmFail) r where "new_events s (snd (edgetpu_ioctl_acquire_wakelock env s)) = [PM_GET r]"
      "req_count (wakelock (client (snd (edgetpu_ioctl_acquire_wakelock env s))))
         = req_count (wakelock (client s))"
  | (Overflow) "new_events s (snd (edgetpu_ioctl_acquire_wakelock env s)) = [PM_GET 0, PM_PUT]"
      "req_count (wakelock (client (snd (edgetpu_ioctl_acquire_wakelock env s))))
         = req_count (wakelock (client s))"
  | (Nested) "new_events s (snd (edgetpu_ioctl_acquire_wakelock env s)) = [PM_GET 0]"
      "req_count (wakelock (client s)) \<noteq> 0 \<or> group (client s) = None"
  | (FirstAttached) g where
      "new_events s (snd (edgetpu_ioctl_acquire_wakelock env s))
         = [PM_GET 0, GROUP_ATTACH_AND_OPEN_MAILBOX g 0]"
      "req_count (wakelock (client s)) = 0" "group (client s) = Some g"
      "req_count (wakelock (client (snd (edgetpu_ioctl_acquire_wakelock env s)))) = 1"
  | (FirstAttachFailed) g r where
      "new_events s (snd (edgetpu_ioctl_acquire_wakelock env s))
         = [PM_GET 0, GROUP_ATTACH_AND_OPEN_MAILBOX g r, PM_PUT]" "r \<noteq> 0"
      "req_count (wakelock (client s)) = 0" "group (client s) = Some g"
      "req_count (wakelock (client (snd (edgetpu_ioctl_acquire_wakelock env s)))) = 0"
proof -
  consider (a) "thermal_suspended env"
    | (b) "\<not> thermal_suspended env" "pm_get_ret env \<noteq> 0"
    | (c) "\<not> thermal_suspended env" "pm_get_ret env = 0" "sint (req_count (wakelock (client s))) < 0"
    | (d) "\<not> thermal_suspended env" "pm_get_ret env = 0" "0 < sint (req_count (wakelock (client s)))"
    | (e) "\<not> thermal_suspended env" "pm_get_ret env = 0" "req_count (wakelock (client s)) = 0"
        "group (client s) = None"
    | (f) g where "\<not> thermal_suspended env" "pm_get_ret env = 0" "req_count (wakelock (client s)) = 0"
        "group (client s) = Some g" "attach_ret env = 0"
    | (g) g where "\<not> thermal_suspended env" "pm_get_ret env = 0" "req_count (wakelock (client s)) = 0"
        "group (client s) = Some g" "attach_ret env \<noteq> 0"
  proof -
    have "sint (req_count (wakelock (client s))) < 0 \<or> 0 < sint (req_count (wakelock (client s)))
        \<or> req_count (wakelock (client s)) = 0"
      using sint_zero_iff [of "req_count (wakelock (client s))"] by linarith
    then show ?thesis
      using a b c d e f g by (cases "group (client s)") blast+
  qed
  then show ?thesis
  proof cases
    case a
    then show ?thesis using Thermal by (simp add: acq_thermal)
  next
    case b
    then show ?thesis using PmFail [of "pm_get_ret env"] by (simp add: acq_pm_fail)
  next
    case c
    then show ?thesis using Overflow acq_overflow [of env s] by simp
  next
    case d
    then have "req_count (wakelock (client s)) \<noteq> 0" by auto
    with d show ?thesis using Nested acq_more [of env s] by simp
  next
    case e
    then show ?thesis using Nested acq_first_nogroup [of env s] by simp
  next
    case (f g)
    then show ?thesis using FirstAttached [of g] acq_first_group_ok [of env s g] by simp
  next
    case (g g')
    then show ?thesis using FirstAttachFailed [of g' "attach_ret env"] acq_first_group_fail [of env s g'] by simp
  qed
qed

lemma rel_fail:
  "req_count (wakelock (client s)) = 0 \<Longrightarrow>
   edgetpu_ioctl_release_wakelock s = (- EINVAL, UNLOCK (LOCK s))"
  by (simp add: edgetpu_ioctl_release_wakelock_def edgetpu_wakelock_release_def Let_def errno_defs
      LOCK_def UNLOCK_def)

lemma rel_last_group:
  assumes "req_count (wakelock (client s)) = 1" "group (client s) = Some g"
  shows "fst (edgetpu_ioctl_release_wakelock s) = 0"
    and "events (snd (edgetpu_ioctl_release_wakelock s))
           = events s @ [GROUP_CLOSE_AND_DETACH_MAILBOX g, PM_PUT]"
    and "req_count (wakelock (client (snd (edgetpu_ioctl_release_wakelock s)))) = 0"
  using assms
  by (simp_all add: edgetpu_ioctl_release_wakelock_def edgetpu_wakelock_release_def Let_def)

lemma rel_other:
  assumes "req_count (wakelock (client s)) \<noteq> 0"
    "req_count (wakelock (client s)) \<noteq> 1 \<or> group (client s) = None"
  shows "new_events s (snd (edgetpu_ioctl_release_wakelock s)) = []
       \<or> new_events s (snd (edgetpu_ioctl_release_wakelock s)) = [PM_PUT]"
proof (cases "sint (req_count (wakelock (client s)) - 1) < 0")
  case True
  with assms(1) show ?thesis
    by (simp add: edgetpu_ioctl_release_wakelock_def edgetpu_wakelock_release_def Let_def)
next
  case False
  show ?thesis
  proof (cases "req_count (wakelock (client s)) = 1")
    case True
    with assms(2) have "group (client s) = None" by simp
    with True show ?thesis
      by (simp add: edgetpu_ioctl_release_wakelock_def edgetpu_wakelock_release_def Let_def)
  next
    case f: False
    then have "sint (req_count (wakelock (client s)) - 1) \<noteq> 0"
      by (simp add: sint_zero_iff)
    with False assms(1) show ?thesis
      by (simp add: edgetpu_ioctl_release_wakelock_def edgetpu_wakelock_release_def Let_def)
  qed
qed

text \<open>
  Claim C3. An acquire that raises the count from 0 to 1 while the client is in a
  group adds exactly the events \<open>edgetpu_pm_get\<close>, then the attach of the group's
  mailbox; any other acquire attaches no mailbox (none is even tried when the count
  was not 0 or the client has no group), and no acquire detaches one. A release that
  lowers the count from 1 to 0 while the client is in a group adds exactly the
  events detach, then \<open>edgetpu_pm_put\<close>; any other release detaches no mailbox, and
  no release attaches one.
\<close>

theorem wakelock_mailbox_order:
  "(req_count (wakelock (client s)) = 0
      \<and> req_count (wakelock (client (snd (edgetpu_ioctl_acquire_wakelock env s)))) = 1
      \<and> group (client s) = Some g \<longrightarrow>
        events (snd (edgetpu_ioctl_acquire_wakelock env s))
          = events s @ [PM_GET 0, GROUP_ATTACH_AND_OPEN_MAILBOX g 0])
   \<and> (\<not> (req_count (wakelock (client s)) = 0
          \<and> req_count (wakelock (client (snd (edgetpu_ioctl_acquire_wakelock env s)))) = 1
          \<and> group (client s) \<noteq> None) \<longrightarrow>
        (\<forall>g'. GROUP_ATTACH_AND_OPEN_MAILBOX g' 0
           \<notin> set (new_events s (snd (edgetpu_ioctl_acquire_wakelock env s)))))
   \<and> (req_count (wakelock (client s)) \<noteq> 0 \<or> group (client s) = None \<longrightarrow>
        (\<forall>g' r. GROUP_ATTACH_AND_OPEN_MAILBOX g' r
           \<notin> set (new_events s (snd (edgetpu_ioctl_acquire_wakelock env s)))))
   \<and> (\<forall>g'. GROUP_CLOSE_AND_DETACH_MAILBOX g'
           \<notin> set (new_events s (snd (edgetpu_ioctl_acquire_wakelock env s))))
   \<and> (req_count (wakelock (client s)) = 1 \<and> group (client s) = Some g \<longrightarrow>
        events (snd (edgetpu_ioctl_release_wakelock s))
          = events s @ [GROUP_CLOSE_AND_DETACH_MAILBOX g, PM_PUT]
        \<and> req_count (wakelock (client (snd (edgetpu_ioctl_release_wakelock s)))) = 0)
   \<and> (req_count (wakelock (client s)) \<noteq> 1 \<or> group (client s) = None \<longrightarrow>
        (\<forall>g'. GROUP_CLOSE_AND_DETACH_MAILBOX g'
           \<notin> set (new_events s (snd (edgetpu_ioctl_release_wakelock s)))))
   \<and> (\<forall>g' r. GROUP_ATTACH_AND_OPEN_MAILBOX g' r
           \<notin> set (new_events s (snd (edgetpu_ioctl_release_wakelock s))))"
proof -
  let ?a = "snd (edgetpu_ioctl_acquire_wakelock env s)"
  let ?r = "snd (edgetpu_ioctl_release_wakelock s)"
  have A1: "req_count (wakelock (client s)) = 0
      \<and> req_count (wakelock (client ?a)) = 1 \<and> group (client s) = Some g \<longrightarrow>
        events ?a = events s @ [PM_GET 0, GROUP_ATTACH_AND_OPEN_MAILBOX g 0]"
  proof
    assume h: "req_count (wakelock (client s)) = 0
      \<and> req_count (wakelock (client ?a)) = 1 \<and> group (client s) = Some g"
    show "events ?a = events s @ [PM_GET 0, GROUP_ATTACH_AND_OPEN_MAILBOX g 0]"
    proof (cases "thermal_suspended env")
      case True
      with h show ?thesis by (auto simp: acq_thermal)
    next
      case nt: False
      show ?thesis
      proof (cases "pm_get_ret env = 0")
        case False
        with nt h show ?thesis by (auto simp: acq_pm_fail)
      next
        case pm: True
        show ?thesis
        proof (cases "attach_ret env = 0")
          case True
          with nt pm h show ?thesis using acq_first_group_ok(2) [of env s g] by simp
        next
          case False
          with nt pm h show ?thesis using acq_first_group_fail(3) [of env s g] by auto
        qed
      qed
    qed
  qed
  have A2: "\<not> (req_count (wakelock (client s)) = 0
          \<and> req_count (wakelock (client ?a)) = 1 \<and> group (client s) \<noteq> None) \<longrightarrow>
        (\<forall>g'. GROUP_ATTACH_AND_OPEN_MAILBOX g' 0 \<notin> set (new_events s ?a))"
    by (rule acquire_paths [of s env]) auto
  have A3: "req_count (wakelock (client s)) \<noteq> 0 \<or> group (client s) = None \<longrightarrow>
        (\<forall>g' r. GROUP_ATTACH_AND_OPEN_MAILBOX g' r \<notin> set (new_events s ?a))"
    by (rule acquire_paths [of s env]) auto
  have A4: "\<forall>g'. GROUP_CLOSE_AND_DETACH_MAILBOX g' \<notin> set (new_events s ?a)"
    by (rule acquire_paths [of s env]) auto
  have R1: "req_count (wakelock (client s)) = 1 \<and> group (client s) = Some g \<longrightarrow>
        events ?r = events s @ [GROUP_CLOSE_AND_DETACH_MAILBOX g, PM_PUT]
        \<and> req_count (wakelock (client ?r)) = 0"
    using rel_last_group [of s g] by simp
  have R2: "req_count (wakelock (client s)) \<noteq> 1 \<or> group (client s) = None \<longrightarrow>
        (\<forall>g'. GROUP_CLOSE_AND_DETACH_MAILBOX g' \<notin> set (new_events s ?r))"
  proof (cases "req_count (wakelock (client s)) = 0")
    case True
    then show ?thesis by (simp add: rel_fail new_events_def LOCK_def UNLOCK_def)
  next
    case False
    then show ?thesis using rel_other [of s] by auto
  qed
  have R3: "\<forall>g' r. GROUP_ATTACH_AND_OPEN_MAILBOX g' r \<notin> set (new_events s ?r)"
  proof (cases "req_count (wakelock (client s)) = 0")
    case True
    then show ?thesis by (simp add: rel_fail new_events_def LOCK_def UNLOCK_def)
  next
    case nz: False
    show ?thesis
    proof (cases "req_count (wakelock (client s)) \<noteq> 1 \<or> group (client s) = None")
      case True
      with nz show ?thesis using rel_other [of s] by auto
    next
      case False
      then obtain g' where "req_count (wakelock (client s)) = 1" "group (client s) = Some g'"
        by auto
      then show ?thesis using rel_last_group(2) [of s g'] by simp
    qed
  qed
  from A1 A2 A3 A4 R1 R2 R3 show ?thesis by blast
qed

theorem wakelock_mailbox_order_witness:
  "events (snd (edgetpu_ioctl_acquire_wakelock env_ok fs0))
     = [PM_GET 0, GROUP_ATTACH_AND_OPEN_MAILBOX 7 0]
   \<and> events (snd (edgetpu_ioctl_release_wakelock
        (snd (edgetpu_ioctl_acquire_wakelock env_ok fs0))))
     = [PM_GET 0, GROUP_ATTACH_AND_OPEN_MAILBOX 7 0, GROUP_CLOSE_AND_DETACH_MAILBOX 7, PM_PUT]"
proof -
  have a: "req_count (wakelock (client fs0)) = 0" "group (client fs0) = Some 7"
    "events fs0 = []"
    by (simp_all add: fs0_def client0_def)
  have b: "req_count (wakelock (client (snd (edgetpu_ioctl_acquire_wakelock env_ok fs0)))) = 1"
    "group (client (snd (edgetpu_ioctl_acquire_wakelock env_ok fs0))) = Some 7"
    by (simp_all add: edgetpu_ioctl_acquire_wakelock_def edgetpu_wakelock_acquire_def Let_def
        fs0_def client0_def env_ok_def LOCK_def UNLOCK_def emit_def)
  from wakelock_mailbox_order [of fs0 env_ok 7]
       wakelock_mailbox_order [of "snd (edgetpu_ioctl_acquire_wakelock env_ok fs0)" env_ok 7] a b
  show ?thesis by simp
qed

section \<open>Results on the removal of a client\<close>

lemma pm_put_loop_events:
  "events (pm_put_loop n s) = events s @ replicate (unat n) PM_PUT"
proof (induction n s rule: pm_put_loop.induct)
  case (1 n s)
  show ?case
  proof (cases "n = 0")
    case True
    then show ?thesis by (simp add: pm_put_loop.simps)
  next
    case False
    then have "0 < unat n" by (simp add: unat_gt_0)
    then have u: "unat n = Suc (unat (n - 1))" using False by (simp add: unat_minus_one)
    have "events (pm_put_loop n s) = events (pm_put_loop (n - 1) (emit PM_PUT s))"
      using False by (subst pm_put_loop.simps) simp
    also have "\<dots> = events (emit PM_PUT s) @ replicate (unat (n - 1)) PM_PUT"
      using "1.IH" [OF False] .
    also have "\<dots> = events s @ replicate (unat n) PM_PUT"
      by (simp add: u replicate_append_same)
    finally show ?thesis .
  qed
qed

lemma pm_put_loop_client:
  "client (pm_put_loop n s) = client s"
proof (induction n s rule: pm_put_loop.induct)
  case (1 n s)
  show ?case
  proof (cases "n = 0")
    case True
    then show ?thesis by (simp add: pm_put_loop.simps)
  next
    case False
    have "client (pm_put_loop n s) = client (pm_put_loop (n - 1) (emit PM_PUT s))"
      using False by (subst pm_put_loop.simps) simp
    with "1.IH" [OF False] show ?thesis by simp
  qed
qed

text \<open>
  Claim C7, as stated, fails in its last part: the power releases come after the
  client's reference is dropped. For a client of group 7 with one reference and two
  wakelocks held the calls are: leave the group, remove the external-mailbox state,
  free the client, and only then the two \<open>edgetpu_pm_put\<close>.
\<close>

theorem client_remove_free_first_counterexample:
  "req_count (wakelock (client fs_held)) = 2
   \<and> events (edgetpu_client_remove fs_held)
       = [DEVICE_GROUP_LEAVE 7, EXT_CLIENT_REMOVE, KFREE_CLIENT, PM_PUT, PM_PUT]"
proof -
  have two: "replicate 2 PM_PUT = [PM_PUT, PM_PUT]" by (simp add: numeral_2_eq_2)
  show ?thesis
    by (simp add: fs_held_def fs0_def client0_def edgetpu_client_remove_def Let_def
        pm_put_loop_events edgetpu_client_put_def LOCK_def UNLOCK_def emit_def
        perdie_event_id_to_num_def EDGETPU_PERDIE_EVENT_LOGS_AVAILABLE_def
        EDGETPU_PERDIE_EVENT_TRACES_AVAILABLE_def two)
qed

lemma events_client_put:
  "events (edgetpu_client_put s) = events s @ (if refcount (client s) = 1 then [KFREE_CLIENT] else [])"
  by (simp add: edgetpu_client_put_def)

lemma client_put_fields:
  "group (client (edgetpu_client_put s)) = group (client s)"
  "wakelock (client (edgetpu_client_put s)) = wakelock (client s)"
  by (simp_all add: edgetpu_client_put_def)

lemma client_remove_events:
  "events (edgetpu_client_remove s)
     = events s @ remove_before_put s
       @ (if refcount (client s) = 1 then [KFREE_CLIENT] else [])
       @ replicate (unat (req_count (wakelock (client s)))) PM_PUT"
  by (cases "group (client s)")
     (simp_all add: edgetpu_client_remove_def Let_def pm_put_loop_events events_client_put
      remove_before_put_def perdie_event_id_to_num_def EDGETPU_PERDIE_EVENT_LOGS_AVAILABLE_def
      EDGETPU_PERDIE_EVENT_TRACES_AVAILABLE_def emit_def LOCK_def UNLOCK_def)

lemma client_remove_client:
  "group (client (edgetpu_client_remove s)) = None"
  "wakelock (client (edgetpu_client_remove s)) = wakelock (client s)"
  by (cases "group (client s)";
      simp add: edgetpu_client_remove_def Let_def pm_put_loop_client client_put_fields
      emit_def LOCK_def UNLOCK_def)+

lemma count_list_replicate_same [simp]: "count_list (replicate n x) x = n"
  by (induction n) simp_all

lemma count_list_replicate_other [simp]: "x \<noteq> y \<Longrightarrow> count_list (replicate n x) y = 0"
  by (induction n) simp_all

lemma remove_before_put_no_pm_put: "PM_PUT \<notin> set (remove_before_put s)"
  by (cases "req_count (wakelock (client s)) = 0"; cases "group (client s)";
      simp add: remove_before_put_def)

lemma remove_before_put_leave:
  "group (client s) = Some g \<Longrightarrow> count_list (remove_before_put s) (DEVICE_GROUP_LEAVE g) = 1"
  "group (client s) = Some g \<Longrightarrow> DEVICE_GROUP_LEAVE g \<in> set (remove_before_put s)"
  "group (client s) = None \<Longrightarrow> DEVICE_GROUP_LEAVE g \<notin> set (remove_before_put s)"
  by (cases "req_count (wakelock (client s)) = 0"; simp add: remove_before_put_def)+

text \<open>
  Claim C7, amended. For every client, \<open>edgetpu_client_remove\<close> leaves the client's
  group exactly once when it belongs to one (and not otherwise), leaves the client
  without a group, and performs exactly one \<open>edgetpu_pm_put\<close> for each wakelock
  counted in \<open>req_count\<close> at entry. These power releases are the last calls made:
  the group has been left and the client's reference dropped (the client freed, when
  it was the last reference) before the first of them. \<open>req_count\<close> itself is not
  reset.
\<close>

theorem client_remove_releases:
  "count_list (new_events s (edgetpu_client_remove s)) PM_PUT
     = unat (req_count (wakelock (client s)))
   \<and> (\<forall>g. group (client s) = Some g \<longrightarrow>
         count_list (new_events s (edgetpu_client_remove s)) (DEVICE_GROUP_LEAVE g) = 1)
   \<and> (group (client s) = None \<longrightarrow>
         (\<forall>g. DEVICE_GROUP_LEAVE g \<notin> set (new_events s (edgetpu_client_remove s))))
   \<and> group (client (edgetpu_client_remove s)) = None
   \<and> req_count (wakelock (client (edgetpu_client_remove s))) = req_count (wakelock (client s))
   \<and> (\<exists>pre. new_events s (edgetpu_client_remove s)
               = pre @ replicate (unat (req_count (wakelock (client s)))) PM_PUT
            \<and> PM_PUT \<notin> set pre
            \<and> (\<forall>g. group (client s) = Some g \<longrightarrow> DEVICE_GROUP_LEAVE g \<in> set pre)
            \<and> (refcount (client s) = 1 \<longrightarrow> KFREE_CLIENT \<in> set pre))"
proof -
  let ?n = "unat (req_count (wakelock (client s)))"
  let ?pre = "remove_before_put s @ (if refcount (client s) = 1 then [KFREE_CLIENT] else [])"
  have ne: "new_events s (edgetpu_client_remove s) = ?pre @ replicate ?n PM_PUT"
    by (simp add: client_remove_events)
  have np: "PM_PUT \<notin> set ?pre"
    using remove_before_put_no_pm_put [of s] by simp
  then have c0: "count_list ?pre PM_PUT = 0" by (metis count_list_0_iff)
  have c1: "count_list (new_events s (edgetpu_client_remove s)) PM_PUT = ?n"
    unfolding ne using c0 by simp
  have l1: "\<forall>g. group (client s) = Some g \<longrightarrow>
         count_list (new_events s (edgetpu_client_remove s)) (DEVICE_GROUP_LEAVE g) = 1"
    unfolding ne using remove_before_put_leave(1) [of s] by simp
  have l0: "group (client s) = None \<longrightarrow>
         (\<forall>g. DEVICE_GROUP_LEAVE g \<notin> set (new_events s (edgetpu_client_remove s)))"
    unfolding ne using remove_before_put_leave(3) [of s] by simp
  have ex: "\<exists>pre. new_events s (edgetpu_client_remove s) = pre @ replicate ?n PM_PUT
            \<and> PM_PUT \<notin> set pre
            \<and> (\<forall>g. group (client s) = Some g \<longrightarrow> DEVICE_GROUP_LEAVE g \<in> set pre)
            \<and> (refcount (client s) = 1 \<longrightarrow> KFREE_CLIENT \<in> set pre)"
    using ne np remove_before_put_leave(2) [of s]
    by (intro exI [of _ ?pre]) simp
  from c1 l1 l0 ex client_remove_client [of s] show ?thesis by simp
qed

theorem client_remove_releases_witness:
  "count_list (new_events fs_held (edgetpu_client_remove fs_held)) PM_PUT = 2
   \<and> count_list (new_events fs_held (edgetpu_client_remove fs_held)) (DEVICE_GROUP_LEAVE 7) = 1
   \<and> group (client (edgetpu_client_remove fs_held)) = None"
proof -
  have g: "group (client fs_held) = Some 7" "unat (req_count (wakelock (client fs_held))) = 2"
    by (simp_all add: fs_held_def fs0_def client0_def)
  from client_remove_releases [of fs_held] g show ?thesis by simp
qed

section \<open>Results on the group-scoped operations\<close>

lemma unlock_lock: "\<not> group_lock s \<Longrightarrow> UNLOCK (LOCK s) = s"
  by (cases s) (simp add: LOCK_def UNLOCK_def)

lemma lock_check_no_group:
  "group (client s) = None \<Longrightarrow> \<not> group_lock s \<Longrightarrow> lock_check_group_member s = (None, s)"
  by (simp add: lock_check_group_member_def Let_def unlock_lock)

lemma no_group_errno_negative: "no_group_errno cmd env < 0"
  by (simp add: no_group_errno_def errno_defs ENODEV_def)

text \<open>
  Claim C10, as stated, fails: a handler passes other guards before it looks at the
  group. For a client without a group, a VII command on a device that does not use
  in-kernel VII ends with -EOPNOTSUPP, and a buffer map whose argument cannot be
  copied in ends with -EFAULT; neither is -EINVAL.
\<close>

theorem no_group_ioctl_counterexample:
  "group (client fs_nogroup) = None
   \<and> edgetpu_ioctl EDGETPU_VII_COMMAND (ioctl_env_ok\<lparr>use_ikv := False\<rparr>) fs_nogroup
       = (- EOPNOTSUPP, fs_nogroup)
   \<and> edgetpu_ioctl EDGETPU_MAP_BUFFER (ioctl_env_ok\<lparr>copy_from_user_ok := False\<rparr>) fs_nogroup
       = (- EFAULT, fs_nogroup)
   \<and> EOPNOTSUPP \<noteq> EINVAL \<and> EFAULT \<noteq> EINVAL"
  by (simp add: fs_nogroup_def fs0_def client0_def ioctl_env_ok_def edgetpu_ioctl_def
      edgetpu_ioctl_vii_command_def edgetpu_ioctl_map_buffer_def errno_defs)

text \<open>
  Claim C10, amended. For every group-scoped command of the dispatcher and a client
  that is in no group (its group lock free): the call fails with a negative error
  number and leaves the state as it was, with no call into the group code and the
  lock released. The error is -EINVAL unless an earlier guard answers: -ENODEV without
  a client behind the file, -EPERM on a file not opened for writing, -EFAULT when the
  handler's argument cannot be copied in, -EOPNOTSUPP for the VII commands when
  in-kernel VII is off or the device's VII format is not the call's.
\<close>

theorem no_group_ioctl:
  assumes "group (client s) = None" and "\<not> group_lock s"
  shows "edgetpu_ioctl cmd env s = (no_group_errno cmd env, s) \<and> no_group_errno cmd env < 0"
proof -
  note lc = lock_check_no_group [OF assms]
  have "edgetpu_ioctl cmd env s = (no_group_errno cmd env, s)"
  proof (cases cmd)
    case EDGETPU_MAP_BUFFER
    then show ?thesis
      by (simp add: edgetpu_ioctl_def no_group_errno_def copies_argument_in_def
          vii_mode_refused_def edgetpu_ioctl_map_buffer_def lc)
  next
    case EDGETPU_UNMAP_BUFFER
    then show ?thesis
      by (simp add: edgetpu_ioctl_def no_group_errno_def copies_argument_in_def
          vii_mode_refused_def edgetpu_ioctl_unmap_buffer_def lc)
  next
    case EDGETPU_SYNC_BUFFER
    then show ?thesis
      by (simp add: edgetpu_ioctl_def no_group_errno_def copies_argument_in_def
          vii_mode_refused_def edgetpu_ioctl_sync_buffer_def lc)
  next
    case EDGETPU_MAP_DMABUF
    then show ?thesis
      by (simp add: edgetpu_ioctl_def no_group_errno_def copies_argument_in_def
          vii_mode_refused_def edgetpu_ioctl_map_dmabuf_def lc)
  next
    case EDGETPU_UNMAP_DMABUF
    then show ?thesis
      by (simp add: edgetpu_ioctl_def no_group_errno_def copies_argument_in_def
          vii_mode_refused_def edgetpu_ioctl_unmap_dmabuf_def lc)
  next
    case EDGETPU_SET_EVENTFD
    then show ?thesis
      by (simp add: edgetpu_ioctl_def no_group_errno_def copies_argument_in_def
          vii_mode_refused_def edgetpu_ioctl_set_eventfd_def lc)
  next
    case EDGETPU_UNSET_EVENT
    then show ?thesis
      by (simp add: edgetpu_ioctl_def no_group_errno_def copies_argument_in_def
          vii_mode_refused_def edgetpu_ioctl_unset_eventfd_def lc)
  next
    case EDGETPU_CREATE_SYNC_FENCE
    then show ?thesis
      using assms
      by (simp add: edgetpu_ioctl_def no_group_errno_def copies_argument_in_def
          vii_mode_refused_def edgetpu_ioctl_sync_fence_create_def Let_def unlock_lock)
  next
    case EDGETPU_VII_COMMAND
    then show ?thesis
      by (simp add: edgetpu_ioctl_def no_group_errno_def copies_argument_in_def
          vii_mode_refused_def edgetpu_ioctl_vii_command_def lc)
  next
    case EDGETPU_VII_RESPONSE
    then show ?thesis
      by (simp add: edgetpu_ioctl_def no_group_errno_def copies_argument_in_def
          vii_mode_refused_def edgetpu_ioctl_vii_response_def lc)
  next
    case EDGETPU_VII_LITEBUF_COMMAND
    then show ?thesis
      by (simp add: edgetpu_ioctl_def no_group_errno_def copies_argument_in_def
          vii_mode_refused_def edgetpu_ioctl_vii_litebuf_command_def lc)
  next
    case EDGETPU_VII_LITEBUF_RESPONSE
    then show ?thesis
      by (simp add: edgetpu_ioctl_def no_group_errno_def copies_argument_in_def
          vii_mode_refused_def edgetpu_ioctl_vii_litebuf_response_def lc)
  qed
  with no_group_errno_negative show ?thesis by simp
qed

theorem no_group_ioctl_witness:
  "edgetpu_ioctl EDGETPU_MAP_BUFFER ioctl_env_ok fs_nogroup = (- EINVAL, fs_nogroup)
   \<and> edgetpu_ioctl EDGETPU_VII_RESPONSE ioctl_env_ok fs_nogroup = (- EINVAL, fs_nogroup)"
proof -
  have g: "group (client fs_nogroup) = None" "\<not> group_lock fs_nogroup"
    by (simp_all add: fs_nogroup_def fs0_def client0_def)
  have e: "no_group_errno EDGETPU_MAP_BUFFER ioctl_env_ok = - EINVAL"
    "no_group_errno EDGETPU_VII_RESPONSE ioctl_env_ok = - EINVAL"
    by (simp_all add: no_group_errno_def ioctl_env_ok_def copies_argument_in_def
        vii_mode_refused_def)
  from no_group_ioctl [OF g, of EDGETPU_MAP_BUFFER ioctl_env_ok]
       no_group_ioctl [OF g, of EDGETPU_VII_RESPONSE ioctl_env_ok] e
  show ?thesis by simp
qed


section \<open>Results on the fence awaiter\<close>

lemma awaiter_inv_init: "awaiter_inv (gcip_ikf_awaiter_init cb)"
  by (simp add: awaiter_inv_def global_inv_def cb_inv_def gcip_ikf_awaiter_init_def)

text \<open>A waiter's part of the invariant reads only that waiter.\<close>

lemma thread_inv_cong:
  assumes "pool s' ! t = pool s ! t"
    and "t \<in> set (threads s') \<longleftrightarrow> t \<in> set (threads s)"
    and "ncb s' t = ncb s t"
    and "signaled_cb s' = signaled_cb s"
  shows "thread_inv s' t = thread_inv s t"
proof -
  have a: "tail_ok s' t = tail_ok s t" "fresh_ok s' t = fresh_ok s t"
    using assms by (simp_all add: tail_ok_def fresh_ok_def)
  show ?thesis
    by (cases "t_pc (pool s ! t)") (simp_all add: thread_inv_def a assms)
qed

lemma ncb_0_iff: "ncb s t = 0 \<longleftrightarrow> (\<forall>c\<in>set (callbacks s). fst c \<noteq> t)"
  by (auto simp: ncb_def filter_empty_conv)

lemma ncb_append:
  "ncb (s\<lparr>callbacks := callbacks s @ [(u, st, d)]\<rparr>) t = ncb s t + (if u = t then 1 else 0)"
  by (simp add: ncb_def)

lemma ncb_pool_beyond: "cb_inv s \<Longrightarrow> length (pool s) \<le> t \<Longrightarrow> ncb s t = 0"
  by (fastforce simp: ncb_0_iff cb_inv_def)

lemma set_thread_simps [simp]:
  "pool (set_thread t th s) = (pool s)[t := th]"
  "threads (set_thread t th s) = threads s"
  "stop_threads (set_thread t th s) = stop_threads s"
  "signaled_cb (set_thread t th s) = signaled_cb s"
  "exit_at (set_thread t th s) = exit_at s"
  "outstanding (set_thread t th s) = outstanding s"
  "callbacks (set_thread t th s) = callbacks s"
  by (simp_all add: set_thread_def)

lemma ncb_set_thread [simp]: "ncb (set_thread t th s) u = ncb s u"
  by (simp add: ncb_def)

lemma ncb_threads_upd [simp]: "ncb (s\<lparr>threads := x\<rparr>) u = ncb s u"
  by (simp add: ncb_def)

lemma ncb_exit_upd [simp]: "ncb (s\<lparr>exit_at := x\<rparr>) u = ncb s u"
  by (simp add: ncb_def)

text \<open>
  A transition that rewrites waiter \<open>t\<close> only, keeps its flags for stopping and its
  place unless it was not yet ended, and keeps what the callbacks recorded about it,
  keeps the global part and the callback part of the invariant.
\<close>

lemma global_inv_set_thread:
  assumes g: "global_inv s" and t: "t < length (pool s)"
    and ss: "should_stop th = should_stop (pool s ! t)"
    and pc: "t_pc (pool s ! t) = T_EXITED \<longrightarrow> t_pc th = T_EXITED"
  shows "global_inv (set_thread t th s)"
  using g t ss pc unfolding global_inv_def
  by (auto simp: nth_list_update)

lemma cb_inv_set_thread:
  assumes c: "cb_inv s" and t: "t < length (pool s)"
    and keep: "ncb s t \<noteq> 0 \<longrightarrow>
       signaled th = signaled (pool s ! t) \<and> wait_status th = wait_status (pool s ! t)
       \<and> (t_pc (pool s ! t) \<in> {T_OUT, T_REL, T_EXITED} \<longrightarrow> t_pc th \<in> {T_OUT, T_REL, T_EXITED})
       \<and> (t_pc (pool s ! t) = T_EXITED \<longrightarrow> t_pc th = T_EXITED)"
  shows "cb_inv (set_thread t th s)"
  unfolding cb_inv_def
proof
  fix c assume cin: "c \<in> set (callbacks (set_thread t th s))"
  then have cin': "c \<in> set (callbacks s)" by simp
  with c have old: "fst c < length (pool s)
        \<and> (case snd (snd c) of
             BY_THREAD \<Rightarrow> signaled (pool s ! fst c) \<and> fst (snd c) = wait_status (pool s ! fst c)
                 \<and> t_pc (pool s ! fst c) \<in> {T_OUT, T_REL, T_EXITED}
           | BY_EXIT \<Rightarrow> \<not> signaled (pool s ! fst c) \<and> fst (snd c) = - ERESTARTSYS
                 \<and> t_pc (pool s ! fst c) = T_EXITED \<and> fst c \<notin> set (threads s))"
    unfolding cb_inv_def by blast
  show "fst c < length (pool (set_thread t th s))
        \<and> (case snd (snd c) of
             BY_THREAD \<Rightarrow> signaled (pool (set_thread t th s) ! fst c)
                 \<and> fst (snd c) = wait_status (pool (set_thread t th s) ! fst c)
                 \<and> t_pc (pool (set_thread t th s) ! fst c) \<in> {T_OUT, T_REL, T_EXITED}
           | BY_EXIT \<Rightarrow> \<not> signaled (pool (set_thread t th s) ! fst c)
                 \<and> fst (snd c) = - ERESTARTSYS
                 \<and> t_pc (pool (set_thread t th s) ! fst c) = T_EXITED
                 \<and> fst c \<notin> set (threads (set_thread t th s)))"
  proof (cases "fst c = t")
    case False
    with old show ?thesis by (simp add: nth_list_update split: deliverer.splits)
  next
    case True
    with cin' have "ncb s t \<noteq> 0" by (auto simp: ncb_0_iff)
    with keep True old t show ?thesis
      by (cases "snd (snd c)") (auto simp: nth_list_update)
  qed
qed

lemma thread_inv_set_thread_other:
  "u \<noteq> t \<Longrightarrow> thread_inv (set_thread t th s) u = thread_inv s u"
  by (rule thread_inv_cong) simp_all

lemma awaiter_inv_set_thread:
  assumes inv: "awaiter_inv s" and t: "t < length (pool s)"
    and ss: "should_stop th = should_stop (pool s ! t)"
    and live: "t_pc (pool s ! t) \<noteq> T_EXITED"
    and keep: "ncb s t \<noteq> 0 \<longrightarrow>
       signaled th = signaled (pool s ! t) \<and> wait_status th = wait_status (pool s ! t)
       \<and> (t_pc (pool s ! t) \<in> {T_OUT, T_REL, T_EXITED} \<longrightarrow> t_pc th \<in> {T_OUT, T_REL, T_EXITED})"
    and own: "thread_inv (set_thread t th s) t"
  shows "awaiter_inv (set_thread t th s)"
proof -
  from inv have g: "global_inv s" and c: "cb_inv s" and ti: "\<forall>u<length (pool s). thread_inv s u"
    by (simp_all add: awaiter_inv_def)
  have g': "global_inv (set_thread t th s)"
    using global_inv_set_thread [OF g t ss] live by simp
  have c': "cb_inv (set_thread t th s)"
    using cb_inv_set_thread [OF c t, of th] keep live by simp
  have ti': "\<forall>u<length (pool (set_thread t th s)). thread_inv (set_thread t th s) u"
  proof (intro allI impI)
    fix u assume "u < length (pool (set_thread t th s))"
    then have u: "u < length (pool s)" by simp
    show "thread_inv (set_thread t th s) u"
    proof (cases "u = t")
      case True
      with own show ?thesis by simp
    next
      case False
      with ti u show ?thesis by (simp add: thread_inv_set_thread_other)
    qed
  qed
  from g' c' ti' show ?thesis by (simp add: awaiter_inv_def)
qed

lemma inv_thread: "awaiter_inv s \<Longrightarrow> t < length (pool s) \<Longrightarrow> thread_inv s t"
  by (simp add: awaiter_inv_def)

lemma tail_ok_set_thread:
  "t < length (pool s) \<Longrightarrow>
   tail_ok (set_thread t th s) t =
     (if signaled th
      then saw_stop th = Some False \<and> ncb s t = (if signaled_cb s then 1 else 0)
      else saw_stop th \<noteq> Some False \<and> should_stop th \<and> ncb s t = 0)"
  by (simp add: tail_ok_def)

lemma fresh_ok_set_thread:
  "t < length (pool s) \<Longrightarrow>
   fresh_ok (set_thread t th s) t =
     (t \<in> set (threads s) \<and> \<not> release_thread th \<and> \<not> freed th \<and> ncb s t = 0)"
  by (simp add: fresh_ok_def)

text \<open>The return of \<open>dma_fence_wait_timeout\<close>.\<close>

lemma inv_fence_wait_return:
  assumes inv: "awaiter_inv s" and st: "fence_wait_return t r s = Some s'"
  shows "awaiter_inv s'"
proof -
  from st have t: "t < length (pool s)" and pc: "t_pc (pool s ! t) = T_WAIT"
    and s': "s' = set_thread t ((pool s ! t)\<lparr>wait_status := r, t_pc := T_CHECK\<rparr>) s"
    by (auto simp: fence_wait_return_def Let_def split: if_splits)
  from inv_thread [OF inv t] pc have f: "fresh_ok s t" "\<not> signaled (pool s ! t)"
    "saw_stop (pool s ! t) = None"
    by (simp_all add: thread_inv_def)
  then have n0: "ncb s t = 0" by (simp add: fresh_ok_def)
  have own: "thread_inv s' t"
    unfolding s' using f t by (simp add: thread_inv_def fresh_ok_set_thread) (simp add: fresh_ok_def)
  show ?thesis
    unfolding s'
    by (rule awaiter_inv_set_thread [OF inv t]) (use pc n0 own s' in simp_all)
qed

lemma thread_step_cases:
  assumes "thread_step t s = Some s'"
  obtains
    (START) "t < length (pool s)" "t_pc (pool s ! t) = T_START"
      "s' = set_thread t ((pool s ! t)
            \<lparr>t_pc := (if should_stop (pool s ! t) then T_EXITED else T_WAIT)\<rparr>) s"
  | (CHECK) "t < length (pool s)" "t_pc (pool s ! t) = T_CHECK"
      "s' = set_thread t ((pool s ! t)
            \<lparr>saw_stop := Some (should_stop (pool s ! t)),
             t_pc := (if should_stop (pool s ! t) then T_OUT else T_SET)\<rparr>) s"
  | (SET) w where "t < length (pool s)" "t_pc (pool s ! t) = T_SET"
      "s' = set_thread t ((pool s ! t)\<lparr>signaled := True, wait_status := w, t_pc := T_CB\<rparr>) s"
  | (CB) "t < length (pool s)" "t_pc (pool s ! t) = T_CB"
      "s' = set_thread t ((pool s ! t)\<lparr>t_pc := T_OUT\<rparr>)
             (if signaled_cb s
              then s\<lparr>callbacks := callbacks s @ [(t, wait_status (pool s ! t), BY_THREAD)]\<rparr>
              else s)"
  | (OUT_release) "t < length (pool s)" "t_pc (pool s ! t) = T_OUT" "\<not> stop_threads s"
      "s' = set_thread t ((pool s ! t)\<lparr>release_thread := True, t_pc := T_REL\<rparr>)
             (s\<lparr>threads := remove1 t (threads s)\<rparr>)"
  | (OUT_keep) "t < length (pool s)" "t_pc (pool s ! t) = T_OUT" "stop_threads s"
      "s' = set_thread t ((pool s ! t)\<lparr>t_pc := T_REL\<rparr>) s"
  | (REL) "t < length (pool s)" "t_pc (pool s ! t) = T_REL"
      "s' = set_thread t ((pool s ! t)
            \<lparr>freed := (if release_thread (pool s ! t) then True else freed (pool s ! t)),
             t_pc := T_EXITED\<rparr>) s"
proof -
  from assms have t: "t < length (pool s)"
    by (auto simp: thread_step_def split: if_splits)
  show ?thesis
  proof (cases "t_pc (pool s ! t)")
    case T_START
    with assms t show ?thesis using START by (simp add: thread_step_def Let_def)
  next
    case T_WAIT
    with assms t show ?thesis by (simp add: thread_step_def Let_def)
  next
    case T_CHECK
    with assms t show ?thesis using CHECK by (simp add: thread_step_def Let_def)
  next
    case T_SET
    with assms t show ?thesis using SET by (auto simp: thread_step_def Let_def)
  next
    case T_CB
    with assms t show ?thesis using CB by (auto simp: thread_step_def Let_def)
  next
    case T_OUT
    with assms t show ?thesis using OUT_release OUT_keep
      by (cases "stop_threads s") (auto simp: thread_step_def Let_def)
  next
    case T_REL
    with assms t show ?thesis using REL by (simp add: thread_step_def Let_def)
  next
    case T_EXITED
    with assms t show ?thesis by (simp add: thread_step_def Let_def)
  qed
qed

lemma inv_thread_START:
  assumes inv: "awaiter_inv s" and t: "t < length (pool s)" and pc: "t_pc (pool s ! t) = T_START"
  shows "awaiter_inv (set_thread t ((pool s ! t)
            \<lparr>t_pc := (if should_stop (pool s ! t) then T_EXITED else T_WAIT)\<rparr>) s)"
proof -
  from inv_thread [OF inv t] pc have f: "fresh_ok s t" "\<not> signaled (pool s ! t)"
    "saw_stop (pool s ! t) = None"
    by (simp_all add: thread_inv_def)
  then have n0: "ncb s t = 0" and inl: "t \<in> set (threads s)"
    and nr: "\<not> release_thread (pool s ! t)" "\<not> freed (pool s ! t)"
    by (simp_all add: fresh_ok_def)
  show ?thesis
  proof (rule awaiter_inv_set_thread [OF inv t])
    show "thread_inv (set_thread t ((pool s ! t)
            \<lparr>t_pc := (if should_stop (pool s ! t) then T_EXITED else T_WAIT)\<rparr>) s) t"
      using f t n0 inl nr
      by (simp add: thread_inv_def fresh_ok_set_thread tail_ok_set_thread)
  qed (use pc n0 in simp_all)
qed

lemma inv_thread_CHECK:
  assumes inv: "awaiter_inv s" and t: "t < length (pool s)" and pc: "t_pc (pool s ! t) = T_CHECK"
  shows "awaiter_inv (set_thread t ((pool s ! t)
            \<lparr>saw_stop := Some (should_stop (pool s ! t)),
             t_pc := (if should_stop (pool s ! t) then T_OUT else T_SET)\<rparr>) s)"
proof -
  from inv_thread [OF inv t] pc have f: "fresh_ok s t" "\<not> signaled (pool s ! t)"
    "saw_stop (pool s ! t) = None"
    by (simp_all add: thread_inv_def)
  then have n0: "ncb s t = 0" and inl: "t \<in> set (threads s)"
    and nr: "\<not> release_thread (pool s ! t)" "\<not> freed (pool s ! t)"
    by (simp_all add: fresh_ok_def)
  show ?thesis
  proof (rule awaiter_inv_set_thread [OF inv t])
    show "thread_inv (set_thread t ((pool s ! t)
            \<lparr>saw_stop := Some (should_stop (pool s ! t)),
             t_pc := (if should_stop (pool s ! t) then T_OUT else T_SET)\<rparr>) s) t"
      using f t n0 inl nr
      by (simp add: thread_inv_def fresh_ok_set_thread tail_ok_set_thread)
  qed (use pc n0 in simp_all)
qed

lemma inv_thread_SET:
  assumes inv: "awaiter_inv s" and t: "t < length (pool s)" and pc: "t_pc (pool s ! t) = T_SET"
  shows "awaiter_inv (set_thread t ((pool s ! t)\<lparr>signaled := True, wait_status := w, t_pc := T_CB\<rparr>) s)"
proof -
  from inv_thread [OF inv t] pc have f: "fresh_ok s t" "\<not> signaled (pool s ! t)"
    "saw_stop (pool s ! t) = Some False"
    by (simp_all add: thread_inv_def)
  then have n0: "ncb s t = 0" and inl: "t \<in> set (threads s)"
    and nr: "\<not> release_thread (pool s ! t)" "\<not> freed (pool s ! t)"
    by (simp_all add: fresh_ok_def)
  show ?thesis
  proof (rule awaiter_inv_set_thread [OF inv t])
    show "thread_inv (set_thread t ((pool s ! t)\<lparr>signaled := True, wait_status := w, t_pc := T_CB\<rparr>) s) t"
      using f t n0 inl nr
      by (simp add: thread_inv_def fresh_ok_set_thread tail_ok_set_thread)
  qed (use pc n0 in simp_all)
qed

lemma inv_thread_OUT_keep:
  assumes inv: "awaiter_inv s" and t: "t < length (pool s)" and pc: "t_pc (pool s ! t) = T_OUT"
  shows "awaiter_inv (set_thread t ((pool s ! t)\<lparr>t_pc := T_REL\<rparr>) s)"
proof -
  from inv_thread [OF inv t] pc have f: "t \<in> set (threads s)" "\<not> release_thread (pool s ! t)"
    "\<not> freed (pool s ! t)" "tail_ok s t"
    by (simp_all add: thread_inv_def)
  show ?thesis
  proof (rule awaiter_inv_set_thread [OF inv t])
    show "thread_inv (set_thread t ((pool s ! t)\<lparr>t_pc := T_REL\<rparr>) s) t"
      using f t by (simp add: thread_inv_def tail_ok_set_thread) (simp add: tail_ok_def)
  qed (use pc in simp_all)
qed

lemma inv_thread_REL:
  assumes inv: "awaiter_inv s" and t: "t < length (pool s)" and pc: "t_pc (pool s ! t) = T_REL"
  shows "awaiter_inv (set_thread t ((pool s ! t)
            \<lparr>freed := (if release_thread (pool s ! t) then True else freed (pool s ! t)),
             t_pc := T_EXITED\<rparr>) s)"
proof -
  from inv_thread [OF inv t] pc have f: "\<not> freed (pool s ! t)" "tail_ok s t"
    "release_thread (pool s ! t) \<longleftrightarrow> t \<notin> set (threads s)"
    "release_thread (pool s ! t) \<longrightarrow> signaled (pool s ! t)"
    by (simp_all add: thread_inv_def)
  show ?thesis
  proof (rule awaiter_inv_set_thread [OF inv t])
    show "thread_inv (set_thread t ((pool s ! t)
            \<lparr>freed := (if release_thread (pool s ! t) then True else freed (pool s ! t)),
             t_pc := T_EXITED\<rparr>) s) t"
      using f t by (simp add: thread_inv_def tail_ok_set_thread) (auto simp: tail_ok_def)
  qed (use pc in simp_all)
qed

lemma global_inv_callbacks [simp]: "global_inv (s\<lparr>callbacks := x\<rparr>) = global_inv s"
  by (simp add: global_inv_def)

lemma inv_thread_CB:
  assumes inv: "awaiter_inv s" and t: "t < length (pool s)" and pc: "t_pc (pool s ! t) = T_CB"
  shows "awaiter_inv (set_thread t ((pool s ! t)\<lparr>t_pc := T_OUT\<rparr>)
             (if signaled_cb s
              then s\<lparr>callbacks := callbacks s @ [(t, wait_status (pool s ! t), BY_THREAD)]\<rparr>
              else s))"
proof -
  from inv_thread [OF inv t] pc have f: "fresh_ok s t" "signaled (pool s ! t)"
    "saw_stop (pool s ! t) = Some False"
    by (simp_all add: thread_inv_def)
  then have n0: "ncb s t = 0" and inl: "t \<in> set (threads s)"
    and nr: "\<not> release_thread (pool s ! t)" "\<not> freed (pool s ! t)"
    by (simp_all add: fresh_ok_def)
  from inv have g: "global_inv s" and c: "cb_inv s" and ti: "\<forall>u<length (pool s). thread_inv s u"
    by (simp_all add: awaiter_inv_def)
  show ?thesis
  proof (cases "signaled_cb s")
    case False
    have "awaiter_inv (set_thread t ((pool s ! t)\<lparr>t_pc := T_OUT\<rparr>) s)"
    proof (rule awaiter_inv_set_thread [OF inv t])
      show "thread_inv (set_thread t ((pool s ! t)\<lparr>t_pc := T_OUT\<rparr>) s) t"
        using f t n0 inl nr False by (simp add: thread_inv_def tail_ok_set_thread)
    qed (use pc n0 in simp_all)
    with False show ?thesis by simp
  next
    case True
    let ?s1 = "s\<lparr>callbacks := callbacks s @ [(t, wait_status (pool s ! t), BY_THREAD)]\<rparr>"
    let ?s' = "set_thread t ((pool s ! t)\<lparr>t_pc := T_OUT\<rparr>) ?s1"
    have g': "global_inv ?s'"
      by (rule global_inv_set_thread) (use g t pc in simp_all)
    have no_t: "\<forall>c\<in>set (callbacks s). fst c \<noteq> t"
      using n0 by (simp add: ncb_0_iff)
    have c': "cb_inv ?s'"
      unfolding cb_inv_def
    proof
      fix c assume "c \<in> set (callbacks ?s')"
      then consider (old) "c \<in> set (callbacks s)" | (new) "c = (t, wait_status (pool s ! t), BY_THREAD)"
        by auto
      then show "fst c < length (pool ?s')
        \<and> (case snd (snd c) of
             BY_THREAD \<Rightarrow> signaled (pool ?s' ! fst c) \<and> fst (snd c) = wait_status (pool ?s' ! fst c)
                 \<and> t_pc (pool ?s' ! fst c) \<in> {T_OUT, T_REL, T_EXITED}
           | BY_EXIT \<Rightarrow> \<not> signaled (pool ?s' ! fst c) \<and> fst (snd c) = - ERESTARTSYS
                 \<and> t_pc (pool ?s' ! fst c) = T_EXITED \<and> fst c \<notin> set (threads ?s'))"
      proof cases
        case old
        with no_t have ne: "fst c \<noteq> t" by blast
        from old c have "fst c < length (pool s)
        \<and> (case snd (snd c) of
             BY_THREAD \<Rightarrow> signaled (pool s ! fst c) \<and> fst (snd c) = wait_status (pool s ! fst c)
                 \<and> t_pc (pool s ! fst c) \<in> {T_OUT, T_REL, T_EXITED}
           | BY_EXIT \<Rightarrow> \<not> signaled (pool s ! fst c) \<and> fst (snd c) = - ERESTARTSYS
                 \<and> t_pc (pool s ! fst c) = T_EXITED \<and> fst c \<notin> set (threads s))"
          unfolding cb_inv_def by blast
        with ne show ?thesis by (simp add: nth_list_update split: deliverer.splits)
      next
        case new
        with t f show ?thesis by simp
      qed
    qed
    have ti': "\<forall>u<length (pool ?s'). thread_inv ?s' u"
    proof (intro allI impI)
      fix u assume "u < length (pool ?s')"
      then have u: "u < length (pool s)" by simp
      show "thread_inv ?s' u"
      proof (cases "u = t")
        case True
        have "ncb ?s1 t = 1" using n0 by (simp add: ncb_append)
        then show ?thesis
          using True f t inl nr \<open>signaled_cb s\<close>
          by (simp add: thread_inv_def tail_ok_def)
      next
        case False
        have "thread_inv ?s' u = thread_inv s u"
          by (rule thread_inv_cong) (use False in \<open>simp_all add: ncb_append\<close>)
        with ti u show ?thesis by simp
      qed
    qed
    from g' c' ti' True show ?thesis by (simp add: awaiter_inv_def)
  qed
qed

lemma inv_thread_OUT_release:
  assumes inv: "awaiter_inv s" and t: "t < length (pool s)" and pc: "t_pc (pool s ! t) = T_OUT"
    and ns: "\<not> stop_threads s"
  shows "awaiter_inv (set_thread t ((pool s ! t)\<lparr>release_thread := True, t_pc := T_REL\<rparr>)
             (s\<lparr>threads := remove1 t (threads s)\<rparr>))"
proof -
  let ?th = "(pool s ! t)\<lparr>release_thread := True, t_pc := T_REL\<rparr>"
  let ?s' = "set_thread t ?th (s\<lparr>threads := remove1 t (threads s)\<rparr>)"
  from inv have g: "global_inv s" and c: "cb_inv s" and ti: "\<forall>u<length (pool s). thread_inv s u"
    by (simp_all add: awaiter_inv_def)
  from inv_thread [OF inv t] pc have f: "t \<in> set (threads s)" "\<not> release_thread (pool s ! t)"
    "\<not> freed (pool s ! t)" "tail_ok s t"
    by (simp_all add: thread_inv_def)
  from g have d: "distinct (threads s)" and idle: "exit_at s = E_IDLE"
    and nostop: "\<forall>u<length (pool s). \<not> should_stop (pool s ! u)"
    using ns by (auto simp: global_inv_def)
  from nostop t f(4) have sg: "signaled (pool s ! t)"
    by (auto simp: tail_ok_def split: if_splits)
  have mem: "\<And>u. u \<noteq> t \<Longrightarrow> u \<in> set (remove1 t (threads s)) \<longleftrightarrow> u \<in> set (threads s)"
    by simp
  have notin: "t \<notin> set (remove1 t (threads s))" using d by simp
  have g': "global_inv ?s'"
    using g d idle ns nostop t unfolding global_inv_def
    by (auto simp: nth_list_update dest: notin_set_remove1)
  have c': "cb_inv ?s'"
    unfolding cb_inv_def
  proof
    fix c assume "c \<in> set (callbacks ?s')"
    then have cin: "c \<in> set (callbacks s)" by simp
    with c have old: "fst c < length (pool s)
        \<and> (case snd (snd c) of
             BY_THREAD \<Rightarrow> signaled (pool s ! fst c) \<and> fst (snd c) = wait_status (pool s ! fst c)
                 \<and> t_pc (pool s ! fst c) \<in> {T_OUT, T_REL, T_EXITED}
           | BY_EXIT \<Rightarrow> \<not> signaled (pool s ! fst c) \<and> fst (snd c) = - ERESTARTSYS
                 \<and> t_pc (pool s ! fst c) = T_EXITED \<and> fst c \<notin> set (threads s))"
      unfolding cb_inv_def by blast
    show "fst c < length (pool ?s')
        \<and> (case snd (snd c) of
             BY_THREAD \<Rightarrow> signaled (pool ?s' ! fst c) \<and> fst (snd c) = wait_status (pool ?s' ! fst c)
                 \<and> t_pc (pool ?s' ! fst c) \<in> {T_OUT, T_REL, T_EXITED}
           | BY_EXIT \<Rightarrow> \<not> signaled (pool ?s' ! fst c) \<and> fst (snd c) = - ERESTARTSYS
                 \<and> t_pc (pool ?s' ! fst c) = T_EXITED \<and> fst c \<notin> set (threads ?s'))"
    proof (cases "fst c = t")
      case True
      with old pc t show ?thesis
        by (cases "snd (snd c)") (simp_all add: nth_list_update)
    next
      case False
      with old show ?thesis
        by (cases "snd (snd c)") (auto simp: nth_list_update dest: notin_set_remove1)
    qed
  qed
  have ti': "\<forall>u<length (pool ?s'). thread_inv ?s' u"
  proof (intro allI impI)
    fix u assume "u < length (pool ?s')"
    then have u: "u < length (pool s)" by simp
    show "thread_inv ?s' u"
    proof (cases "u = t")
      case True
      have "tail_ok ?s' t" using f(4) t by (simp add: tail_ok_def)
      then show ?thesis
        using True f t sg notin by (simp add: thread_inv_def)
    next
      case False
      have "thread_inv ?s' u = thread_inv s u"
        by (rule thread_inv_cong) (use False in simp_all)
      with ti u show ?thesis by simp
    qed
  qed
  from g' c' ti' show ?thesis by (simp add: awaiter_inv_def)
qed

lemma inv_thread_step:
  assumes inv: "awaiter_inv s" and st: "thread_step t s = Some s'"
  shows "awaiter_inv s'"
  using st
proof (cases rule: thread_step_cases)
  case START
  then show ?thesis using inv_thread_START [OF inv] by simp
next
  case CHECK
  then show ?thesis using inv_thread_CHECK [OF inv] by simp
next
  case (SET w)
  then show ?thesis using inv_thread_SET [OF inv] by simp
next
  case CB
  then show ?thesis using inv_thread_CB [OF inv] by simp
next
  case OUT_release
  then show ?thesis using inv_thread_OUT_release [OF inv] by simp
next
  case OUT_keep
  then show ?thesis using inv_thread_OUT_keep [OF inv] by simp
next
  case REL
  then show ?thesis using inv_thread_REL [OF inv] by simp
qed

lemma thread_inv_upd_global [simp]:
  "thread_inv (s\<lparr>stop_threads := a\<rparr>) u = thread_inv s u"
  "thread_inv (s\<lparr>outstanding := b\<rparr>) u = thread_inv s u"
  "thread_inv (s\<lparr>exit_at := c\<rparr>) u = thread_inv s u"
  by (rule thread_inv_cong; simp add: ncb_def)+

lemma cb_inv_cong:
  assumes "pool s' = pool s" "callbacks s' = callbacks s" "threads s' = threads s"
  shows "cb_inv s' = cb_inv s"
  using assms by (auto simp: cb_inv_def split: deliverer.splits)

lemma cb_inv_upd_global [simp]:
  "cb_inv (s\<lparr>stop_threads := a\<rparr>) = cb_inv s"
  "cb_inv (s\<lparr>outstanding := b\<rparr>) = cb_inv s"
  "cb_inv (s\<lparr>exit_at := c\<rparr>) = cb_inv s"
  by (rule cb_inv_cong; simp)+

lemma inv_exit_IDLE:
  assumes inv: "awaiter_inv s" and at: "exit_at s = E_IDLE"
  shows "awaiter_inv (s\<lparr>stop_threads := True, outstanding := threads s, exit_at := E_LOOP\<rparr>)"
proof -
  from inv have g: "global_inv s" and c: "cb_inv s" and ti: "\<forall>u<length (pool s). thread_inv s u"
    by (simp_all add: awaiter_inv_def)
  from g at have ns: "\<not> stop_threads s" by (simp add: global_inv_def)
  with g have nostop: "\<forall>u<length (pool s). \<not> should_stop (pool s ! u)"
    by (auto simp: global_inv_def)
  have "global_inv (s\<lparr>stop_threads := True, outstanding := threads s, exit_at := E_LOOP\<rparr>)"
    using g nostop unfolding global_inv_def by auto
  with c ti show ?thesis by (simp add: awaiter_inv_def)
qed

lemma inv_exit_LOOP_empty:
  assumes inv: "awaiter_inv s" and at: "exit_at s = E_LOOP" and e: "threads s = []"
  shows "awaiter_inv (s\<lparr>exit_at := E_DONE\<rparr>)"
proof -
  from inv have g: "global_inv s" and c: "cb_inv s" and ti: "\<forall>u<length (pool s). thread_inv s u"
    by (simp_all add: awaiter_inv_def)
  have "global_inv (s\<lparr>exit_at := E_DONE\<rparr>)"
    using g at e unfolding global_inv_def by auto
  with c ti show ?thesis by (simp add: awaiter_inv_def)
qed

lemma inv_exit_LOOP_stop:
  assumes inv: "awaiter_inv s" and at: "exit_at s = E_LOOP" and e: "threads s = cur # rest"
  shows "awaiter_inv (set_thread cur ((pool s ! cur)\<lparr>should_stop := True\<rparr>)
                            (s\<lparr>exit_at := E_STOPPING cur\<rparr>))"
proof -
  let ?s1 = "s\<lparr>exit_at := E_STOPPING cur\<rparr>"
  let ?s' = "set_thread cur ((pool s ! cur)\<lparr>should_stop := True\<rparr>) ?s1"
  from inv have g: "global_inv s" and c: "cb_inv s" and ti: "\<forall>u<length (pool s). thread_inv s u"
    by (simp_all add: awaiter_inv_def)
  from g e have cur: "cur < length (pool s)" and inl: "cur \<in> set (threads s)"
    by (simp_all add: global_inv_def)
  from g at have st: "stop_threads s"
    by (auto simp: global_inv_def)
  have g': "global_inv ?s'"
    using g at inl cur st unfolding global_inv_def
    by (auto simp: nth_list_update)
  have c': "cb_inv ?s'"
    by (rule cb_inv_set_thread) (use c cur in simp_all)
  have ti': "\<forall>u<length (pool ?s'). thread_inv ?s' u"
  proof (intro allI impI)
    fix u assume "u < length (pool ?s')"
    then have u: "u < length (pool s)" by simp
    show "thread_inv ?s' u"
    proof (cases "u = cur")
      case True
      from ti cur have old: "thread_inv s cur" by simp
      have to: "tail_ok s cur \<Longrightarrow> tail_ok ?s' cur"
        using cur by (auto simp: tail_ok_def ncb_def split: if_splits)
      have fo: "fresh_ok ?s' cur = fresh_ok s cur"
        using cur by (simp add: fresh_ok_def ncb_def)
      show ?thesis
        using old to cur unfolding True
        by (cases "t_pc (pool s ! cur)") (auto simp: thread_inv_def fo ncb_def)
    next
      case False
      have "thread_inv ?s' u = thread_inv s u"
        by (rule thread_inv_cong) (use False in \<open>simp_all add: ncb_def\<close>)
      with ti u show ?thesis by simp
    qed
  qed
  from g' c' ti' show ?thesis by (simp add: awaiter_inv_def)
qed

lemma inv_exit_sweep:
  assumes inv: "awaiter_inv s" and at: "exit_at s = E_STOPPING cur"
    and pc: "t_pc (pool s ! cur) = T_EXITED"
  shows "awaiter_inv
     (set_thread cur ((pool s ! cur)\<lparr>freed := True\<rparr>)
        ((if \<not> signaled (pool s ! cur) \<and> signaled_cb s
           then s\<lparr>callbacks := callbacks s @ [(cur, - ERESTARTSYS, BY_EXIT)]\<rparr>
           else s)
         \<lparr>threads := remove1 cur (threads s), exit_at := E_LOOP\<rparr>))"
proof -
  let ?add = "\<not> signaled (pool s ! cur) \<and> signaled_cb s"
  let ?s1 = "if ?add then s\<lparr>callbacks := callbacks s @ [(cur, - ERESTARTSYS, BY_EXIT)]\<rparr> else s"
  let ?s' = "set_thread cur ((pool s ! cur)\<lparr>freed := True\<rparr>)
        (?s1\<lparr>threads := remove1 cur (threads s), exit_at := E_LOOP\<rparr>)"
  from inv have g: "global_inv s" and c: "cb_inv s" and ti: "\<forall>u<length (pool s). thread_inv s u"
    by (simp_all add: awaiter_inv_def)
  from g at have inl: "cur \<in> set (threads s)" and d: "distinct (threads s)"
    and st: "stop_threads s"
    by (auto simp: global_inv_def)
  with g have cur: "cur < length (pool s)" by (simp add: global_inv_def)
  from ti cur pc inl have own: "\<not> freed (pool s ! cur)" "\<not> release_thread (pool s ! cur)"
    "tail_ok s cur"
    by (auto simp: thread_inv_def)
  have notin: "cur \<notin> set (remove1 cur (threads s))" using d by simp
  have f1: "pool ?s' = (pool s)[cur := (pool s ! cur)\<lparr>freed := True\<rparr>]"
    "threads ?s' = remove1 cur (threads s)" "exit_at ?s' = E_LOOP"
    "stop_threads ?s' = stop_threads s" "outstanding ?s' = outstanding s"
    "signaled_cb ?s' = signaled_cb s"
    "callbacks ?s' = callbacks s @ (if ?add then [(cur, - ERESTARTSYS, BY_EXIT)] else [])"
    by simp_all
  have g': "global_inv ?s'"
    unfolding global_inv_def f1
    using g d at st cur pc notin unfolding global_inv_def
    by (auto simp: nth_list_update dest: notin_set_remove1)
  have c': "cb_inv ?s'"
    unfolding cb_inv_def
  proof
    fix c assume "c \<in> set (callbacks ?s')"
    then consider (old) "c \<in> set (callbacks s)"
      | (new) "?add" "c = (cur, - ERESTARTSYS, BY_EXIT)"
      unfolding f1 by (auto split: if_splits)
    then show "fst c < length (pool ?s')
        \<and> (case snd (snd c) of
             BY_THREAD \<Rightarrow> signaled (pool ?s' ! fst c) \<and> fst (snd c) = wait_status (pool ?s' ! fst c)
                 \<and> t_pc (pool ?s' ! fst c) \<in> {T_OUT, T_REL, T_EXITED}
           | BY_EXIT \<Rightarrow> \<not> signaled (pool ?s' ! fst c) \<and> fst (snd c) = - ERESTARTSYS
                 \<and> t_pc (pool ?s' ! fst c) = T_EXITED \<and> fst c \<notin> set (threads ?s'))"
    proof cases
      case old
      with c have o: "fst c < length (pool s)
        \<and> (case snd (snd c) of
             BY_THREAD \<Rightarrow> signaled (pool s ! fst c) \<and> fst (snd c) = wait_status (pool s ! fst c)
                 \<and> t_pc (pool s ! fst c) \<in> {T_OUT, T_REL, T_EXITED}
           | BY_EXIT \<Rightarrow> \<not> signaled (pool s ! fst c) \<and> fst (snd c) = - ERESTARTSYS
                 \<and> t_pc (pool s ! fst c) = T_EXITED \<and> fst c \<notin> set (threads s))"
        unfolding cb_inv_def by blast
      then show ?thesis
        unfolding f1
        by (cases "snd (snd c)"; cases "fst c = cur")
           (auto simp: nth_list_update dest: notin_set_remove1)
    next
      case new
      then show ?thesis
        unfolding f1 using cur pc notin by simp
    qed
  qed
  have ti': "\<forall>u<length (pool ?s'). thread_inv ?s' u"
  proof (intro allI impI)
    fix u assume "u < length (pool ?s')"
    then have u: "u < length (pool s)" unfolding f1 by simp
    show "thread_inv ?s' u"
    proof (cases "u = cur")
      case True
      have n: "ncb ?s' cur = ncb s cur + (if ?add then 1 else 0)"
        unfolding ncb_def f1 by simp
      from own(3) have k: "ncb ?s' cur = (if signaled_cb s then 1 else 0)"
        and sw: "signaled (pool s ! cur) \<longleftrightarrow> saw_stop (pool s ! cur) = Some False"
        unfolding n by (auto simp: tail_ok_def split: if_splits)
      have p: "pool ?s' ! cur = (pool s ! cur)\<lparr>freed := True\<rparr>"
        unfolding f1 using cur by simp
      have q: "cur \<notin> set (threads ?s')" unfolding f1 by (rule notin)
      show ?thesis
        unfolding True thread_inv_def p
        using pc q k sw f1(6) by simp
    next
      case False
      have e1: "pool ?s' ! u = pool s ! u" unfolding f1 using False by simp
      have e2: "(u \<in> set (threads ?s')) = (u \<in> set (threads s))"
        unfolding f1 using False by simp
      have e3: "ncb ?s' u = ncb s u" unfolding ncb_def f1 using False by simp
      have "thread_inv ?s' u = thread_inv s u"
        by (rule thread_inv_cong [OF e1 e2 e3 f1(6)])
      with ti u show ?thesis by simp
    qed
  qed
  from g' c' ti' show ?thesis by (simp add: awaiter_inv_def)
qed

lemma inv_exit_step:
  assumes inv: "awaiter_inv s" and st: "exit_step s = Some s'"
  shows "awaiter_inv s'"
proof (cases "exit_at s")
  case E_IDLE
  with st inv_exit_IDLE [OF inv] show ?thesis by (simp add: exit_step_def)
next
  case E_LOOP
  show ?thesis
  proof (cases "threads s")
    case Nil
    with E_LOOP st inv_exit_LOOP_empty [OF inv] show ?thesis by (simp add: exit_step_def)
  next
    case (Cons cur rest)
    with E_LOOP st inv_exit_LOOP_stop [OF inv E_LOOP Cons] show ?thesis
      by (simp add: exit_step_def split: if_splits)
  qed
next
  case (E_STOPPING cur)
  with st have pc: "t_pc (pool s ! cur) = T_EXITED"
    and s': "s' = set_thread cur ((pool s ! cur)\<lparr>freed := True\<rparr>)
        ((if \<not> signaled (pool s ! cur) \<and> signaled_cb s
           then s\<lparr>callbacks := callbacks s @ [(cur, - ERESTARTSYS, BY_EXIT)]\<rparr>
           else s)
         \<lparr>threads := remove1 cur (threads s), exit_at := E_LOOP\<rparr>)"
    by (auto simp: exit_step_def Let_def split: if_splits)
  show ?thesis unfolding s' by (rule inv_exit_sweep [OF inv E_STOPPING pc])
next
  case E_DONE
  with st show ?thesis by (simp add: exit_step_def)
qed

lemma inv_wait_add:
  assumes inv: "awaiter_inv s" and ns: "\<not> stop_threads s"
  shows "awaiter_inv (s\<lparr>threads := threads s @ [length (pool s)],
                          pool := pool s @ [new_thread tm]\<rparr>)"
proof -
  let ?n = "length (pool s)"
  let ?s' = "s\<lparr>threads := threads s @ [?n], pool := pool s @ [new_thread tm]\<rparr>"
  from inv have g: "global_inv s" and c: "cb_inv s" and ti: "\<forall>u<length (pool s). thread_inv s u"
    by (simp_all add: awaiter_inv_def)
  from g have lt: "\<forall>t\<in>set (threads s). t < ?n" and d: "distinct (threads s)"
    by (simp_all add: global_inv_def)
  then have fresh: "?n \<notin> set (threads s)" by auto
  from g ns have idle: "exit_at s = E_IDLE"
    and nostop: "\<forall>u<?n. \<not> should_stop (pool s ! u)"
    by (auto simp: global_inv_def)
  have g1: "distinct (threads ?s')" using d fresh by simp
  have g2: "\<forall>t\<in>set (threads ?s'). t < length (pool ?s')" using lt by auto
  have g3: "exit_at ?s' = E_IDLE" "\<not> stop_threads ?s'" using idle ns by simp_all
  have g4: "\<forall>t<length (pool ?s'). \<not> should_stop (pool ?s' ! t)"
  proof (intro allI impI)
    fix t assume "t < length (pool ?s')"
    then consider "t < ?n" | "t = ?n" by (auto simp: less_Suc_eq)
    then show "\<not> should_stop (pool ?s' ! t)"
      using nostop by cases (simp_all add: nth_append new_thread_def)
  qed
  have g': "global_inv ?s'"
    unfolding global_inv_def using g1 g2 g3 g4 by simp
  have c': "cb_inv ?s'"
    unfolding cb_inv_def
  proof
    fix c assume "c \<in> set (callbacks ?s')"
    then have "c \<in> set (callbacks s)" by simp
    with c have o: "fst c < length (pool s)
        \<and> (case snd (snd c) of
             BY_THREAD \<Rightarrow> signaled (pool s ! fst c) \<and> fst (snd c) = wait_status (pool s ! fst c)
                 \<and> t_pc (pool s ! fst c) \<in> {T_OUT, T_REL, T_EXITED}
           | BY_EXIT \<Rightarrow> \<not> signaled (pool s ! fst c) \<and> fst (snd c) = - ERESTARTSYS
                 \<and> t_pc (pool s ! fst c) = T_EXITED \<and> fst c \<notin> set (threads s))"
      unfolding cb_inv_def by blast
    then show "fst c < length (pool ?s')
        \<and> (case snd (snd c) of
             BY_THREAD \<Rightarrow> signaled (pool ?s' ! fst c) \<and> fst (snd c) = wait_status (pool ?s' ! fst c)
                 \<and> t_pc (pool ?s' ! fst c) \<in> {T_OUT, T_REL, T_EXITED}
           | BY_EXIT \<Rightarrow> \<not> signaled (pool ?s' ! fst c) \<and> fst (snd c) = - ERESTARTSYS
                 \<and> t_pc (pool ?s' ! fst c) = T_EXITED \<and> fst c \<notin> set (threads ?s'))"
      by (cases "snd (snd c)") (auto simp: nth_append)
  qed
  have ti': "\<forall>u<length (pool ?s'). thread_inv ?s' u"
  proof (intro allI impI)
    fix u assume "u < length (pool ?s')"
    then consider (old) "u < ?n" | (new) "u = ?n" by (auto simp: less_Suc_eq)
    then show "thread_inv ?s' u"
    proof cases
      case old
      have "thread_inv ?s' u = thread_inv s u"
        by (rule thread_inv_cong) (use old in \<open>auto simp: nth_append ncb_def\<close>)
      with ti old show ?thesis by simp
    next
      case new
      have "ncb s ?n = 0" by (rule ncb_pool_beyond [OF c]) simp
      then have "ncb ?s' ?n = 0" by (simp add: ncb_def)
      then show ?thesis
        unfolding new by (simp add: thread_inv_def fresh_ok_def new_thread_def)
    qed
  qed
  from g' c' ti' show ?thesis by (simp add: awaiter_inv_def)
qed

lemma inv_wait_timeout:
  "awaiter_inv s \<Longrightarrow> awaiter_inv (snd (gcip_ikf_wait_timeout a s))"
  using inv_wait_add [of s "timeout_arg a"]
  by (simp add: gcip_ikf_wait_timeout_def)

lemma inv_step:
  "awaiter_inv s \<Longrightarrow> step l s = Some s' \<Longrightarrow> awaiter_inv s'"
proof (cases l)
  case (L_WAIT a)
  assume "awaiter_inv s" "step l s = Some s'"
  with L_WAIT inv_wait_timeout [of s a] show ?thesis by (simp add: step_def)
next
  case (L_THREAD t)
  assume "awaiter_inv s" "step l s = Some s'"
  with L_THREAD inv_thread_step [of s t s'] show ?thesis by (simp add: step_def)
next
  case (L_FENCE t r)
  assume "awaiter_inv s" "step l s = Some s'"
  with L_FENCE inv_fence_wait_return [of s t r s'] show ?thesis by (simp add: step_def)
next
  case L_EXIT
  assume "awaiter_inv s" "step l s = Some s'"
  with L_EXIT inv_exit_step [of s s'] show ?thesis by (simp add: step_def)
qed

lemma inv_exec:
  "awaiter_inv s \<Longrightarrow> exec ls s = Some s' \<Longrightarrow> awaiter_inv s'"
proof (induction ls arbitrary: s)
  case Nil
  then show ?case by simp
next
  case (Cons l ls)
  from Cons.prems(2) obtain s1 where s1: "step l s = Some s1" and r: "exec ls s1 = Some s'"
    by (auto split: option.splits)
  from inv_step [OF Cons.prems(1) s1] r show ?case by (rule Cons.IH)
qed

lemma signaled_cb_step: "step l s = Some s' \<Longrightarrow> signaled_cb s' = signaled_cb s"
proof (cases l)
  case (L_WAIT a)
  assume "step l s = Some s'"
  with L_WAIT show ?thesis
    by (auto simp: step_def gcip_ikf_wait_timeout_def split: if_splits)
next
  case (L_THREAD t)
  assume "step l s = Some s'"
  with L_THREAD have "thread_step t s = Some s'" by (simp add: step_def)
  then show ?thesis by (cases rule: thread_step_cases) simp_all
next
  case (L_FENCE t r)
  assume "step l s = Some s'"
  with L_FENCE show ?thesis
    by (auto simp: step_def fence_wait_return_def Let_def split: if_splits)
next
  case L_EXIT
  assume "step l s = Some s'"
  with L_EXIT have e: "exit_step s = Some s'" by (simp add: step_def)
  show ?thesis
  proof (cases "exit_at s")
    case E_IDLE
    with e show ?thesis by (auto simp: exit_step_def)
  next
    case E_LOOP
    with e show ?thesis by (cases "threads s") (auto simp: exit_step_def split: if_splits)
  next
    case (E_STOPPING cur)
    with e show ?thesis by (auto simp: exit_step_def Let_def split: if_splits)
  next
    case E_DONE
    with e show ?thesis by (simp add: exit_step_def)
  qed
qed

lemma signaled_cb_exec: "exec ls s = Some s' \<Longrightarrow> signaled_cb s' = signaled_cb s"
proof (induction ls arbitrary: s)
  case Nil
  then show ?case by simp
next
  case (Cons l ls)
  from Cons.prems obtain s1 where s1: "step l s = Some s1" and r: "exec ls s1 = Some s'"
    by (auto split: option.splits)
  from Cons.IH [OF r] signaled_cb_step [OF s1] show ?case by simp
qed

lemmas ikf_run_defs =
  step_def thread_step_def fence_wait_return_def exit_step_def gcip_ikf_wait_timeout_def
  gcip_ikf_awaiter_init_def set_thread_def new_thread_def wait_ok_def Let_def
  MAX_SCHEDULE_TIMEOUT_def errno_defs

lemma exec_append:
  "exec (xs @ ys) s = (case exec xs s of None \<Rightarrow> None | Some s1 \<Rightarrow> exec ys s1)"
  by (induction xs arbitrary: s) (auto split: option.splits)

lemma race_prefix_run: "exec race_prefix (gcip_ikf_awaiter_init True) = Some race_mid"
  by (simp add: race_prefix_def race_mid_def ikf_run_defs)

lemma race_stop_run: "exec race_stop race_mid = Some race_mid2"
  by (simp add: race_stop_def race_mid_def race_mid2_def ikf_run_defs)

lemma race_rest_run: "exec race_rest race_mid2 = Some race_end"
  by (simp add: race_rest_def race_mid2_def race_end_def ikf_run_defs)

lemma race_run:
  "exec (race_prefix @ race_stop @ race_rest) (gcip_ikf_awaiter_init True) = Some race_end"
  by (simp add: exec_append race_prefix_run race_stop_run race_rest_run)

lemma run2_run: "exec run2 (gcip_ikf_awaiter_init True) = Some run2_end"
  by (simp add: run2_def run2_end_def ikf_run_defs)

lemma reach_inv:
  assumes "exec ls (gcip_ikf_awaiter_init cb) = Some s"
  shows "awaiter_inv s" and "signaled_cb s = cb"
  using inv_exec [OF awaiter_inv_init assms] signaled_cb_exec [OF assms]
  by (simp_all add: gcip_ikf_awaiter_init_def)

lemma ncb_1_entry: "ncb s t = 1 \<Longrightarrow> \<exists>st d. (t, st, d) \<in> set (callbacks s)"
proof -
  assume "ncb s t = 1"
  then have "filter (\<lambda>c. fst c = t) (callbacks s) \<noteq> []"
    by (auto simp: ncb_def)
  then obtain c where "c \<in> set (callbacks s)" "fst c = t"
    by (auto simp: filter_empty_conv)
  then have "(t, fst (snd c), snd (snd c)) \<in> set (callbacks s)" by auto
  then show ?thesis by blast
qed

lemma cb_inv_thread:
  "cb_inv s \<Longrightarrow> (t, st, BY_THREAD) \<in> set (callbacks s) \<Longrightarrow>
   t < length (pool s) \<and> signaled (pool s ! t) \<and> st = wait_status (pool s ! t)
   \<and> t_pc (pool s ! t) \<in> {T_OUT, T_REL, T_EXITED}"
  by (fastforce simp: cb_inv_def)

lemma cb_inv_exit:
  "cb_inv s \<Longrightarrow> (t, st, BY_EXIT) \<in> set (callbacks s) \<Longrightarrow>
   t < length (pool s) \<and> \<not> signaled (pool s ! t) \<and> st = - ERESTARTSYS
   \<and> t_pc (pool s ! t) = T_EXITED \<and> t \<notin> set (threads s)"
  by (fastforce simp: cb_inv_def)

lemma ended_waiter:
  assumes inv: "awaiter_inv s" and cb: "signaled_cb s" and t: "t < length (pool s)"
    and pc: "t_pc (pool s ! t) = T_EXITED" and out: "t \<notin> set (threads s)"
  shows "freed (pool s ! t)" and "ncb s t = 1"
    and "signaled (pool s ! t) \<longleftrightarrow> saw_stop (pool s ! t) = Some False"
    and "signaled (pool s ! t) \<Longrightarrow> (t, wait_status (pool s ! t), BY_THREAD) \<in> set (callbacks s)"
    and "\<not> signaled (pool s ! t) \<Longrightarrow> (t, - ERESTARTSYS, BY_EXIT) \<in> set (callbacks s)"
proof -
  from inv t have ti: "thread_inv s t" and ci: "cb_inv s" by (simp_all add: awaiter_inv_def)
  from ti pc out cb show f: "freed (pool s ! t)" and n: "ncb s t = 1"
    and sg: "signaled (pool s ! t) \<longleftrightarrow> saw_stop (pool s ! t) = Some False"
    by (simp_all add: thread_inv_def)
  from ncb_1_entry [OF n] obtain st d where e: "(t, st, d) \<in> set (callbacks s)" by blast
  show "signaled (pool s ! t) \<Longrightarrow> (t, wait_status (pool s ! t), BY_THREAD) \<in> set (callbacks s)"
  proof -
    assume sgn: "signaled (pool s ! t)"
    show ?thesis
    proof (cases d)
      case BY_THREAD
      with e cb_inv_thread [OF ci, of t st] show ?thesis by simp
    next
      case BY_EXIT
      with e cb_inv_exit [OF ci, of t st] sgn show ?thesis by simp
    qed
  qed
  show "\<not> signaled (pool s ! t) \<Longrightarrow> (t, - ERESTARTSYS, BY_EXIT) \<in> set (callbacks s)"
  proof -
    assume sgn: "\<not> signaled (pool s ! t)"
    show ?thesis
    proof (cases d)
      case BY_THREAD
      with e cb_inv_thread [OF ci, of t st] sgn show ?thesis by simp
    next
      case BY_EXIT
      with e cb_inv_exit [OF ci, of t st] show ?thesis by simp
    qed
  qed
qed

lemma ncb_le_1:
  assumes inv: "awaiter_inv s" and t: "t < length (pool s)"
  shows "ncb s t \<le> 1"
proof -
  from inv t have ti: "thread_inv s t" by (simp add: awaiter_inv_def)
  then show ?thesis
    by (cases "t_pc (pool s ! t)")
       (auto simp: thread_inv_def fresh_ok_def tail_ok_def split: if_splits)
qed

lemma thread_entry_saw:
  assumes inv: "awaiter_inv s" and e: "(t, st, BY_THREAD) \<in> set (callbacks s)"
  shows "saw_stop (pool s ! t) = Some False"
proof -
  from inv have ci: "cb_inv s" by (simp add: awaiter_inv_def)
  from cb_inv_thread [OF ci e] have t: "t < length (pool s)" and sg: "signaled (pool s ! t)"
    and pc: "t_pc (pool s ! t) \<in> {T_OUT, T_REL, T_EXITED}" by simp_all
  from inv t have ti: "thread_inv s t" by (simp add: awaiter_inv_def)
  from pc consider "t_pc (pool s ! t) = T_OUT" | "t_pc (pool s ! t) = T_REL"
    | "t_pc (pool s ! t) = T_EXITED" by auto
  then show ?thesis
  proof cases
    case 1
    with ti sg show ?thesis by (simp add: thread_inv_def tail_ok_def)
  next
    case 2
    with ti sg show ?thesis by (simp add: thread_inv_def tail_ok_def)
  next
    case 3
    with ti sg show ?thesis by (simp add: thread_inv_def tail_ok_def split: if_splits)
  qed
qed

lemma exit_entry_saw:
  assumes inv: "awaiter_inv s" and e: "(t, st, BY_EXIT) \<in> set (callbacks s)"
  shows "saw_stop (pool s ! t) \<noteq> Some False"
proof -
  from inv have ci: "cb_inv s" by (simp add: awaiter_inv_def)
  from cb_inv_exit [OF ci e] have t: "t < length (pool s)" and sg: "\<not> signaled (pool s ! t)"
    and pc: "t_pc (pool s ! t) = T_EXITED" and out: "t \<notin> set (threads s)" by simp_all
  from inv t have ti: "thread_inv s t" by (simp add: awaiter_inv_def)
  with pc out sg show ?thesis by (simp add: thread_inv_def)
qed

lemma filter_disj_length:
  "(\<And>x. x \<in> set xs \<Longrightarrow> \<not> (P x \<and> Q x)) \<Longrightarrow>
   length (filter (\<lambda>x. P x \<or> Q x) xs) = length (filter P xs) + length (filter Q xs)"
  by (induction xs) auto

lemma count_over_distinct:
  "distinct ts \<Longrightarrow>
   length (filter (\<lambda>c. fst c \<in> set ts) cs)
     = sum_list (map (\<lambda>t. length (filter (\<lambda>c. fst c = t) cs)) ts)"
proof (induction ts)
  case Nil
  then show ?case by simp
next
  case (Cons t ts)
  have "length (filter (\<lambda>c. fst c \<in> set (t # ts)) cs)
      = length (filter (\<lambda>c. fst c = t \<or> fst c \<in> set ts) cs)"
    by simp
  also have "\<dots> = length (filter (\<lambda>c. fst c = t) cs) + length (filter (\<lambda>c. fst c \<in> set ts) cs)"
    by (rule filter_disj_length) (use Cons.prems in auto)
  finally show ?case using Cons by simp
qed

lemma sum_list_all_one: "(\<And>x. x \<in> set xs \<Longrightarrow> f x = (1::nat)) \<Longrightarrow> sum_list (map f xs) = length xs"
  by (induction xs) auto

lemma thread_advance:
  assumes t: "t < length (pool s)" and st: "stop_threads s"
    and pc: "t_pc (pool s ! t) \<noteq> T_EXITED"
  shows "\<exists>l s1. stop_label l \<and> step l s = Some s1
           \<and> rank (t_pc (pool s1 ! t)) < rank (t_pc (pool s ! t)) \<and> same_exit s s1"
proof (cases "t_pc (pool s ! t)")
  case T_WAIT
  with t st have "stop_label (L_FENCE t (- ERESTARTSYS))
      \<and> (\<exists>s1. step (L_FENCE t (- ERESTARTSYS)) s = Some s1
           \<and> rank (t_pc (pool s1 ! t)) < rank (t_pc (pool s ! t)) \<and> same_exit s s1)"
    by (simp add: stop_label_def step_def fence_wait_return_def set_thread_def same_exit_def)
  then show ?thesis by blast
next
  case T_EXITED
  with pc show ?thesis by simp
next
  case T_START
  with t st have "stop_label (L_THREAD t)
      \<and> (\<exists>s1. step (L_THREAD t) s = Some s1
           \<and> rank (t_pc (pool s1 ! t)) < rank (t_pc (pool s ! t)) \<and> same_exit s s1)"
    by (simp add: stop_label_def step_def thread_step_def set_thread_def same_exit_def Let_def)
  then show ?thesis by blast
next
  case T_CHECK
  with t st have "stop_label (L_THREAD t)
      \<and> (\<exists>s1. step (L_THREAD t) s = Some s1
           \<and> rank (t_pc (pool s1 ! t)) < rank (t_pc (pool s ! t)) \<and> same_exit s s1)"
    by (simp add: stop_label_def step_def thread_step_def set_thread_def same_exit_def Let_def)
  then show ?thesis by blast
next
  case T_SET
  with t st have "stop_label (L_THREAD t)
      \<and> (\<exists>s1. step (L_THREAD t) s = Some s1
           \<and> rank (t_pc (pool s1 ! t)) < rank (t_pc (pool s ! t)) \<and> same_exit s s1)"
    by (simp add: stop_label_def step_def thread_step_def set_thread_def same_exit_def Let_def)
  then show ?thesis by blast
next
  case T_CB
  with t st have "stop_label (L_THREAD t)
      \<and> (\<exists>s1. step (L_THREAD t) s = Some s1
           \<and> rank (t_pc (pool s1 ! t)) < rank (t_pc (pool s ! t)) \<and> same_exit s s1)"
    by (simp add: stop_label_def step_def thread_step_def set_thread_def same_exit_def Let_def)
  then show ?thesis by blast
next
  case T_OUT
  with t st have "stop_label (L_THREAD t)
      \<and> (\<exists>s1. step (L_THREAD t) s = Some s1
           \<and> rank (t_pc (pool s1 ! t)) < rank (t_pc (pool s ! t)) \<and> same_exit s s1)"
    by (simp add: stop_label_def step_def thread_step_def set_thread_def same_exit_def Let_def)
  then show ?thesis by blast
next
  case T_REL
  with t st have "stop_label (L_THREAD t)
      \<and> (\<exists>s1. step (L_THREAD t) s = Some s1
           \<and> rank (t_pc (pool s1 ! t)) < rank (t_pc (pool s ! t)) \<and> same_exit s s1)"
    by (simp add: stop_label_def step_def thread_step_def set_thread_def same_exit_def Let_def)
  then show ?thesis by blast
qed

lemma thread_finishes:
  "t < length (pool s) \<Longrightarrow> stop_threads s \<Longrightarrow> rank (t_pc (pool s ! t)) \<le> n \<Longrightarrow>
   \<exists>ls s'. list_all stop_label ls \<and> exec ls s = Some s' \<and> t_pc (pool s' ! t) = T_EXITED
      \<and> same_exit s s'"
proof (induction n arbitrary: s)
  case 0
  then have "t_pc (pool s ! t) = T_EXITED" by (cases "t_pc (pool s ! t)") simp_all
  with 0 have "list_all stop_label [] \<and> exec [] s = Some s \<and> t_pc (pool s ! t) = T_EXITED
      \<and> same_exit s s"
    by (simp add: same_exit_def)
  then show ?case by blast
next
  case (Suc n)
  show ?case
  proof (cases "t_pc (pool s ! t) = T_EXITED")
    case True
    with Suc.prems have "list_all stop_label [] \<and> exec [] s = Some s
        \<and> t_pc (pool s ! t) = T_EXITED \<and> same_exit s s"
      by (simp add: same_exit_def)
    then show ?thesis by blast
  next
    case False
    from thread_advance [OF Suc.prems(1) Suc.prems(2) False]
    obtain l s1 where l: "stop_label l" and s1: "step l s = Some s1"
      and r: "rank (t_pc (pool s1 ! t)) < rank (t_pc (pool s ! t))" and e: "same_exit s s1"
      by blast
    from e Suc.prems have t1: "t < length (pool s1)" and st1: "stop_threads s1"
      by (simp_all add: same_exit_def)
    from r Suc.prems(3) have r1: "rank (t_pc (pool s1 ! t)) \<le> n" by simp
    from Suc.IH [OF t1 st1 r1]
    obtain ls s' where ls: "list_all stop_label ls" and x: "exec ls s1 = Some s'"
      and pc: "t_pc (pool s' ! t) = T_EXITED" and e': "same_exit s1 s'" by blast
    from l ls s1 x pc e e'
    have "list_all stop_label (l # ls) \<and> exec (l # ls) s = Some s'
        \<and> t_pc (pool s' ! t) = T_EXITED \<and> same_exit s s'"
      by (simp add: same_exit_def)
    then show ?thesis by blast
  qed
qed

lemma stopping_finishes:
  assumes inv: "awaiter_inv s" and at: "exit_at s = E_STOPPING cur"
  shows "\<exists>ls s'. list_all stop_label ls \<and> exec ls s = Some s' \<and> awaiter_inv s'
      \<and> exit_at s' = E_LOOP \<and> length (threads s') < length (threads s)"
proof -
  from inv have g: "global_inv s" by (simp add: awaiter_inv_def)
  from g at have cur: "cur \<in> set (threads s)" and st: "stop_threads s"
    by (auto simp: global_inv_def)
  from g cur have t: "cur < length (pool s)" by (auto simp: global_inv_def)
  from thread_finishes [OF t st order_refl]
  obtain ls s1 where ls: "list_all stop_label ls" and x: "exec ls s = Some s1"
    and pc: "t_pc (pool s1 ! cur) = T_EXITED" and e: "same_exit s s1" by blast
  from inv_exec [OF inv x] have inv1: "awaiter_inv s1" .
  from e at t have at1: "exit_at s1 = E_STOPPING cur" and t1: "cur < length (pool s1)"
    and th1: "threads s1 = threads s"
    by (simp_all add: same_exit_def)
  from at1 t1 pc obtain s2 where s2: "exit_step s1 = Some s2" and at2: "exit_at s2 = E_LOOP"
    and th2: "threads s2 = remove1 cur (threads s1)"
    by (auto simp: exit_step_def Let_def set_thread_def)
  from s2 have st2: "step L_EXIT s1 = Some s2" by (simp add: step_def)
  from inv_step [OF inv1 st2] have inv2: "awaiter_inv s2" .
  from th2 th1 cur have len: "length (threads s2) < length (threads s)"
    by (simp add: length_remove1) (cases "threads s"; simp)
  from x st2 have "exec (ls @ [L_EXIT]) s = Some s2" by (simp add: exec_append)
  moreover from ls have "list_all stop_label (ls @ [L_EXIT])" by (simp add: stop_label_def)
  ultimately show ?thesis using inv2 at2 len by blast
qed

lemma loop_finishes:
  "awaiter_inv s \<Longrightarrow> exit_at s = E_LOOP \<Longrightarrow> length (threads s) \<le> n \<Longrightarrow>
   \<exists>ls s'. list_all stop_label ls \<and> exec ls s = Some s' \<and> exit_at s' = E_DONE"
proof (induction n arbitrary: s)
  case 0
  then have "step L_EXIT s = Some (s\<lparr>exit_at := E_DONE\<rparr>)"
    by (simp add: step_def exit_step_def)
  then have "list_all stop_label [L_EXIT] \<and> exec [L_EXIT] s = Some (s\<lparr>exit_at := E_DONE\<rparr>)
      \<and> exit_at (s\<lparr>exit_at := E_DONE\<rparr>) = E_DONE"
    by (simp add: stop_label_def)
  then show ?case by blast
next
  case (Suc n)
  show ?case
  proof (cases "threads s")
    case Nil
    with Suc.prems have "step L_EXIT s = Some (s\<lparr>exit_at := E_DONE\<rparr>)"
      by (simp add: step_def exit_step_def)
    then have "list_all stop_label [L_EXIT] \<and> exec [L_EXIT] s = Some (s\<lparr>exit_at := E_DONE\<rparr>)
        \<and> exit_at (s\<lparr>exit_at := E_DONE\<rparr>) = E_DONE"
      by (simp add: stop_label_def)
    then show ?thesis by blast
  next
    case (Cons cur rest)
    from Suc.prems(1) have g: "global_inv s" by (simp add: awaiter_inv_def)
    from g Cons have t: "cur < length (pool s)" by (auto simp: global_inv_def)
    from Suc.prems(2) Cons t obtain s1 where s1: "exit_step s = Some s1"
      and at1: "exit_at s1 = E_STOPPING cur" and th1: "threads s1 = threads s"
      by (auto simp: exit_step_def set_thread_def)
    from s1 have st1: "step L_EXIT s = Some s1" by (simp add: step_def)
    from inv_step [OF Suc.prems(1) st1] have inv1: "awaiter_inv s1" .
    from stopping_finishes [OF inv1 at1]
    obtain ls s2 where ls: "list_all stop_label ls" and x: "exec ls s1 = Some s2"
      and inv2: "awaiter_inv s2" and at2: "exit_at s2 = E_LOOP"
      and len: "length (threads s2) < length (threads s1)" by blast
    from len th1 Suc.prems(3) have len2: "length (threads s2) \<le> n" by simp
    from Suc.IH [OF inv2 at2 len2]
    obtain ls' s' where ls': "list_all stop_label ls'" and x': "exec ls' s2 = Some s'"
      and fin: "exit_at s' = E_DONE" by blast
    from st1 x x' have "exec (L_EXIT # ls @ ls') s = Some s'" by (simp add: exec_append)
    moreover from ls ls' have "list_all stop_label (L_EXIT # ls @ ls')"
      by (simp add: stop_label_def)
    ultimately show ?thesis using fin by blast
  qed
qed

lemma exit_finishes:
  assumes inv: "awaiter_inv s"
  shows "\<exists>ls s'. list_all stop_label ls \<and> exec ls s = Some s' \<and> exit_at s' = E_DONE"
proof (cases "exit_at s")
  case E_DONE
  then have "list_all stop_label [] \<and> exec [] s = Some s \<and> exit_at s = E_DONE" by simp
  then show ?thesis by blast
next
  case E_LOOP
  from loop_finishes [OF inv E_LOOP order_refl] show ?thesis .
next
  case (E_STOPPING cur)
  from stopping_finishes [OF inv E_STOPPING]
  obtain ls s1 where ls: "list_all stop_label ls" and x: "exec ls s = Some s1"
    and inv1: "awaiter_inv s1" and at1: "exit_at s1 = E_LOOP" by blast
  from loop_finishes [OF inv1 at1 order_refl]
  obtain ls' s' where ls': "list_all stop_label ls'" and x': "exec ls' s1 = Some s'"
    and fin: "exit_at s' = E_DONE" by blast
  from x x' have "exec (ls @ ls') s = Some s'" by (simp add: exec_append)
  moreover from ls ls' have "list_all stop_label (ls @ ls')" by simp
  ultimately show ?thesis using fin by blast
next
  case E_IDLE
  then obtain s1 where s1: "exit_step s = Some s1" and at1: "exit_at s1 = E_LOOP"
    by (auto simp: exit_step_def)
  from s1 have st1: "step L_EXIT s = Some s1" by (simp add: step_def)
  from inv_step [OF inv st1] have inv1: "awaiter_inv s1" .
  from loop_finishes [OF inv1 at1 order_refl]
  obtain ls' s' where ls': "list_all stop_label ls'" and x': "exec ls' s1 = Some s'"
    and fin: "exit_at s' = E_DONE" by blast
  from st1 x' have "exec (L_EXIT # ls') s = Some s'" by simp
  moreover from ls' have "list_all stop_label (L_EXIT # ls')" by (simp add: stop_label_def)
  ultimately show ?thesis using fin by blast
qed

lemma late_run_run: "exec late_run (gcip_ikf_awaiter_init True) = Some late_end"
  by (simp add: late_run_def late_end_def ikf_run_defs)

lemma late_last_step: "step (L_THREAD 0) late_end = Some late_freed"
  by (simp add: late_end_def late_freed_def ikf_run_defs)

text \<open>
  Once the exit call has returned, every waiter ever made has had its one callback,
  and either has ended with its struct released, or is a waiter that took itself off
  the list before \<open>stop_threads\<close> was set and has only the release of its own struct
  left to do.
\<close>

lemma all_waiters_after_exit:
  assumes inv: "awaiter_inv s" and cb: "signaled_cb s" and fin: "exit_at s = E_DONE"
    and t: "t < length (pool s)"
  shows "ncb s t = 1
       \<and> (t_pc (pool s ! t) = T_EXITED \<and> freed (pool s ! t)
          \<or> t \<notin> set (outstanding s) \<and> t_pc (pool s ! t) = T_REL
            \<and> release_thread (pool s ! t) \<and> signaled (pool s ! t) \<and> \<not> freed (pool s ! t))"
proof -
  from inv have g: "global_inv s" by (simp add: awaiter_inv_def)
  from g fin have th: "threads s = []"
    and o: "t \<in> set (outstanding s) \<Longrightarrow> t_pc (pool s ! t) = T_EXITED"
    by (auto simp: global_inv_def)
  from inv t have ti: "thread_inv s t" by (simp add: awaiter_inv_def)
  show ?thesis
  proof (cases "t_pc (pool s ! t)")
    case T_START
    with ti th show ?thesis by (simp add: thread_inv_def fresh_ok_def)
  next
    case T_WAIT
    with ti th show ?thesis by (simp add: thread_inv_def fresh_ok_def)
  next
    case T_CHECK
    with ti th show ?thesis by (simp add: thread_inv_def fresh_ok_def)
  next
    case T_SET
    with ti th show ?thesis by (simp add: thread_inv_def fresh_ok_def)
  next
    case T_CB
    with ti th show ?thesis by (simp add: thread_inv_def fresh_ok_def)
  next
    case T_OUT
    with ti th show ?thesis by (simp add: thread_inv_def)
  next
    case T_REL
    with ti th have r: "release_thread (pool s ! t)" and sg: "signaled (pool s ! t)"
      and nf: "\<not> freed (pool s ! t)" and tl: "tail_ok s t"
      by (simp_all add: thread_inv_def)
    from tl sg cb have n: "ncb s t = 1" by (simp add: tail_ok_def)
    from o T_REL have no: "t \<notin> set (outstanding s)" by auto
    from T_REL r sg nf n no show ?thesis by simp
  next
    case T_EXITED
    with ti th cb show ?thesis by (simp add: thread_inv_def)
  qed
qed

subsection \<open>After the exit call\<close>

text \<open>
  Claim C1, as stated, fails in one part: a waiter's thread can still be running when
  \<open>gcip_ikf_awaiter_exit\<close> has returned. In the run below the waiter sees its fence
  signalled, calls the callback, and in its critical section, \<open>stop_threads\<close> not yet
  set, takes itself off the list. The exit call then sets \<open>stop_threads\<close>, finds the
  list empty and returns, while the waiter's thread has yet to put its fence reference
  and free its struct, which it does afterwards.
\<close>

theorem exit_leaves_running_waiter_counterexample:
  "exec late_run (gcip_ikf_awaiter_init True) = Some late_end
   \<and> exit_at late_end = E_DONE \<and> threads late_end = []
   \<and> t_pc (pool late_end ! 0) = T_REL \<and> \<not> freed (pool late_end ! 0)
   \<and> step (L_THREAD 0) late_end = Some late_freed
   \<and> t_pc (pool late_freed ! 0) = T_EXITED \<and> freed (pool late_freed ! 0)"
  using late_run_run late_last_step by (simp add: late_end_def late_freed_def)

text \<open>
  Claim C1, amended. Take any run of the awaiter, with a callback registered: any
  number of waits, any interleaving of the waiters and of \<open>gcip_ikf_awaiter_exit\<close>, any
  return values of the fence waits. From the state reached, the exit call and the
  waiters it stops can always run on until the exit call has returned, without any
  other transition (\<open>kthread_stop\<close> interrupts the fence wait). And in every state
  where the exit call has returned: no waiter is left on the list and \<open>stop_threads\<close>
  is set; every waiter that was on the list when the exit call set \<open>stop_threads\<close> has
  ended, its struct is released, and the callback has been called exactly once for it,
  by its own thread with the waiter's status when the waiter is marked signalled, by
  the exit call with \<open>-ERESTARTSYS\<close> when it is not; the calls made for these waiters
  are as many as the waiters; every waiter at all has had exactly one callback, and
  one that has not ended is a waiter that took itself off the list before
  \<open>stop_threads\<close> was set, is marked signalled, and has only the release of its own
  struct left to do; and every further \<open>gcip_ikf_wait_timeout\<close> returns an error and
  changes nothing. A waiter counts here as having observed its fence signalled when it
  has written \<open>thread->signaled\<close>.
\<close>

theorem awaiter_exit_cancels_all:
  assumes run: "exec ls (gcip_ikf_awaiter_init True) = Some s"
  shows "(\<exists>ls' s'. list_all stop_label ls' \<and> exec ls' s = Some s' \<and> exit_at s' = E_DONE)
       \<and> (exit_at s = E_DONE \<longrightarrow>
            threads s = [] \<and> stop_threads s
            \<and> (\<forall>t\<in>set (outstanding s).
                  t < length (pool s) \<and> t_pc (pool s ! t) = T_EXITED \<and> freed (pool s ! t)
                  \<and> ncb s t = 1
                  \<and> (signaled (pool s ! t) \<longrightarrow>
                       (t, wait_status (pool s ! t), BY_THREAD) \<in> set (callbacks s))
                  \<and> (\<not> signaled (pool s ! t) \<longrightarrow>
                       (t, - ERESTARTSYS, BY_EXIT) \<in> set (callbacks s)))
            \<and> length (filter (\<lambda>c. fst c \<in> set (outstanding s)) (callbacks s))
                = length (outstanding s)
            \<and> (\<forall>t<length (pool s).
                  ncb s t = 1
                  \<and> (t_pc (pool s ! t) = T_EXITED \<and> freed (pool s ! t)
                     \<or> t \<notin> set (outstanding s) \<and> t_pc (pool s ! t) = T_REL
                       \<and> release_thread (pool s ! t) \<and> signaled (pool s ! t)
                       \<and> \<not> freed (pool s ! t)))
            \<and> (\<forall>a. fst (gcip_ikf_wait_timeout a s) < 0
                  \<and> snd (gcip_ikf_wait_timeout a s) = s))"
proof -
  from reach_inv [OF run] have inv: "awaiter_inv s" and cb: "signaled_cb s" by simp_all
  have progress: "\<exists>ls' s'. list_all stop_label ls' \<and> exec ls' s = Some s' \<and> exit_at s' = E_DONE"
    by (rule exit_finishes [OF inv])
  have after: "threads s = [] \<and> stop_threads s
            \<and> (\<forall>t\<in>set (outstanding s).
                  t < length (pool s) \<and> t_pc (pool s ! t) = T_EXITED \<and> freed (pool s ! t)
                  \<and> ncb s t = 1
                  \<and> (signaled (pool s ! t) \<longrightarrow>
                       (t, wait_status (pool s ! t), BY_THREAD) \<in> set (callbacks s))
                  \<and> (\<not> signaled (pool s ! t) \<longrightarrow>
                       (t, - ERESTARTSYS, BY_EXIT) \<in> set (callbacks s)))
            \<and> length (filter (\<lambda>c. fst c \<in> set (outstanding s)) (callbacks s))
                = length (outstanding s)
            \<and> (\<forall>t<length (pool s).
                  ncb s t = 1
                  \<and> (t_pc (pool s ! t) = T_EXITED \<and> freed (pool s ! t)
                     \<or> t \<notin> set (outstanding s) \<and> t_pc (pool s ! t) = T_REL
                       \<and> release_thread (pool s ! t) \<and> signaled (pool s ! t)
                       \<and> \<not> freed (pool s ! t)))
            \<and> (\<forall>a. fst (gcip_ikf_wait_timeout a s) < 0
                  \<and> snd (gcip_ikf_wait_timeout a s) = s)"
    if fin: "exit_at s = E_DONE"
  proof -
    from inv have g: "global_inv s" by (simp add: awaiter_inv_def)
    from g fin have th: "threads s = []" and st: "stop_threads s"
      and d: "distinct (outstanding s)"
      and o: "\<And>t. t \<in> set (outstanding s) \<Longrightarrow>
                t < length (pool s) \<and> t_pc (pool s ! t) = T_EXITED"
      by (auto simp: global_inv_def)
    have each: "t < length (pool s) \<and> t_pc (pool s ! t) = T_EXITED \<and> freed (pool s ! t)
               \<and> ncb s t = 1
               \<and> (signaled (pool s ! t) \<longrightarrow>
                    (t, wait_status (pool s ! t), BY_THREAD) \<in> set (callbacks s))
               \<and> (\<not> signaled (pool s ! t) \<longrightarrow>
                    (t, - ERESTARTSYS, BY_EXIT) \<in> set (callbacks s))"
      if "t \<in> set (outstanding s)" for t
    proof -
      from o [OF that] have t: "t < length (pool s)" and pc: "t_pc (pool s ! t) = T_EXITED"
        by simp_all
      from th have out: "t \<notin> set (threads s)" by simp
      from ended_waiter [OF inv cb t pc out] t pc show ?thesis by blast
    qed
    have "length (filter (\<lambda>c. fst c \<in> set (outstanding s)) (callbacks s))
        = sum_list (map (ncb s) (outstanding s))"
      using count_over_distinct [OF d, of "callbacks s"] by (simp add: ncb_def [abs_def])
    also have "\<dots> = length (outstanding s)"
      by (rule sum_list_all_one) (use each in blast)
    finally have total: "length (filter (\<lambda>c. fst c \<in> set (outstanding s)) (callbacks s))
        = length (outstanding s)" .
    have every: "\<forall>t<length (pool s).
                  ncb s t = 1
                  \<and> (t_pc (pool s ! t) = T_EXITED \<and> freed (pool s ! t)
                     \<or> t \<notin> set (outstanding s) \<and> t_pc (pool s ! t) = T_REL
                       \<and> release_thread (pool s ! t) \<and> signaled (pool s ! t)
                       \<and> \<not> freed (pool s ! t))"
      using all_waiters_after_exit [OF inv cb fin] by blast
    have refuse: "fst (gcip_ikf_wait_timeout a s) < 0 \<and> snd (gcip_ikf_wait_timeout a s) = s"
      for a
      using st by (simp add: gcip_ikf_wait_timeout_def errno_defs)
    from th st each total every refuse show ?thesis by blast
  qed
  from progress after show ?thesis by blast
qed

theorem awaiter_exit_cancels_all_witness:
  "exec run2 (gcip_ikf_awaiter_init True) = Some run2_end \<and> exit_at run2_end = E_DONE
   \<and> outstanding run2_end = [0, 1] \<and> threads run2_end = []
   \<and> ncb run2_end 0 = 1 \<and> ncb run2_end 1 = 1
   \<and> (1, - ERESTARTSYS, BY_EXIT) \<in> set (callbacks run2_end)
   \<and> length (filter (\<lambda>c. fst c \<in> set (outstanding run2_end)) (callbacks run2_end)) = 2
   \<and> fst (gcip_ikf_wait_timeout wait_ok run2_end) < 0"
proof -
  have fin: "exit_at run2_end = E_DONE" and o: "outstanding run2_end = [0, 1]"
    and ns: "\<not> signaled (pool run2_end ! 1)"
    by (simp_all add: run2_end_def)
  note T = awaiter_exit_cancels_all [OF run2_run, THEN conjunct2, THEN mp, OF fin]
  from T have th: "threads run2_end = []" by blast
  from T o have n: "ncb run2_end 0 = 1" "ncb run2_end 1 = 1" by simp_all
  from T o ns have e: "(1, - ERESTARTSYS, BY_EXIT) \<in> set (callbacks run2_end)" by simp
  from T o have l: "length (filter (\<lambda>c. fst c \<in> set (outstanding run2_end))
                        (callbacks run2_end)) = 2" by simp
  from T have r: "fst (gcip_ikf_wait_timeout wait_ok run2_end) < 0" by blast
  from run2_run fin o th n e l r show ?thesis by blast
qed

subsection \<open>A fence signalled while the exit call runs\<close>

text \<open>
  Claim C6, as stated, fails in its last part: who calls the callback is not decided
  by \<open>awaiter->stop_threads\<close>, nor by any flag as it stands when \<open>thread->signaled\<close> is
  about to be written. In the run below the waiter's fence wait returns 5 and the exit
  call sets \<open>stop_threads\<close> before the waiter tests \<open>kthread_should_stop()\<close>; the test
  answers false, because the exit call has not yet reached \<open>kthread_stop\<close> for this
  waiter. So the waiter stands before \<open>thread->signaled = true\<close> with \<open>stop_threads\<close>
  set. The exit call then reaches \<open>kthread_stop\<close>, and the waiter still stands there,
  now with the stop flag of its task set as well. The waiter goes on, calls the
  callback with status 5, and the exit call, finding the waiter marked, calls nothing.
\<close>

theorem race_stop_threads_counterexample:
  "exec race_prefix (gcip_ikf_awaiter_init True) = Some race_mid
   \<and> stop_threads race_mid \<and> t_pc (pool race_mid ! 0) = T_SET
   \<and> \<not> signaled (pool race_mid ! 0) \<and> \<not> should_stop (pool race_mid ! 0)
   \<and> exec race_stop race_mid = Some race_mid2
   \<and> stop_threads race_mid2 \<and> t_pc (pool race_mid2 ! 0) = T_SET
   \<and> \<not> signaled (pool race_mid2 ! 0) \<and> should_stop (pool race_mid2 ! 0)
   \<and> exec race_rest race_mid2 = Some race_end
   \<and> exit_at race_end = E_DONE \<and> callbacks race_end = [(0, 5, BY_THREAD)]"
  using race_prefix_run race_stop_run race_rest_run
  by (simp add: race_mid_def race_mid2_def race_end_def)

text \<open>
  Claim C6, amended. In every state of every run (a callback registered), for every
  waiter: the callback has been called at most once for it; a call made by the
  waiter's own thread means that the waiter's test of \<open>kthread_should_stop()\<close>, made
  once after the fence wait returned, answered false; a call made by the exit call
  means that the test did not answer false (it answered true, or the thread ended
  without reaching it). Once the waiter's thread has ended and the waiter is off the
  list, exactly one call has been made for it: by its thread, with the waiter's
  status, when the test answered false, and by the exit call, with \<open>-ERESTARTSYS\<close>,
  otherwise. \<open>awaiter->stop_threads\<close> only decides who takes the waiter off the list
  and releases its struct.
\<close>

theorem waiter_callback_once:
  assumes run: "exec ls (gcip_ikf_awaiter_init True) = Some s"
    and t: "t < length (pool s)"
  shows "ncb s t \<le> 1
       \<and> (\<forall>st. (t, st, BY_THREAD) \<in> set (callbacks s) \<longrightarrow> saw_stop (pool s ! t) = Some False)
       \<and> (\<forall>st. (t, st, BY_EXIT) \<in> set (callbacks s) \<longrightarrow> saw_stop (pool s ! t) \<noteq> Some False)
       \<and> (t_pc (pool s ! t) = T_EXITED \<and> t \<notin> set (threads s) \<longrightarrow>
            ncb s t = 1
            \<and> (saw_stop (pool s ! t) = Some False \<longrightarrow>
                 (t, wait_status (pool s ! t), BY_THREAD) \<in> set (callbacks s))
            \<and> (saw_stop (pool s ! t) \<noteq> Some False \<longrightarrow>
                 (t, - ERESTARTSYS, BY_EXIT) \<in> set (callbacks s)))"
proof -
  from reach_inv [OF run] have inv: "awaiter_inv s" and cb: "signaled_cb s" by simp_all
  have a: "ncb s t \<le> 1" by (rule ncb_le_1 [OF inv t])
  have b: "\<forall>st. (t, st, BY_THREAD) \<in> set (callbacks s) \<longrightarrow> saw_stop (pool s ! t) = Some False"
    using thread_entry_saw [OF inv] by blast
  have c: "\<forall>st. (t, st, BY_EXIT) \<in> set (callbacks s) \<longrightarrow> saw_stop (pool s ! t) \<noteq> Some False"
    using exit_entry_saw [OF inv] by blast
  have d: "ncb s t = 1
            \<and> (saw_stop (pool s ! t) = Some False \<longrightarrow>
                 (t, wait_status (pool s ! t), BY_THREAD) \<in> set (callbacks s))
            \<and> (saw_stop (pool s ! t) \<noteq> Some False \<longrightarrow>
                 (t, - ERESTARTSYS, BY_EXIT) \<in> set (callbacks s))"
    if pc: "t_pc (pool s ! t) = T_EXITED" and out: "t \<notin> set (threads s)"
    using ended_waiter [OF inv cb t pc out] by blast
  from a b c d show ?thesis by blast
qed

theorem waiter_callback_once_witness:
  "exec (race_prefix @ race_stop @ race_rest) (gcip_ikf_awaiter_init True) = Some race_end
   \<and> 0 < length (pool race_end) \<and> ncb race_end 0 = 1
   \<and> saw_stop (pool race_end ! 0) = Some False
   \<and> (0, 5, BY_THREAD) \<in> set (callbacks race_end)
   \<and> (0, - ERESTARTSYS, BY_EXIT) \<notin> set (callbacks race_end)"
proof -
  have t: "0 < length (pool race_end)" by (simp add: race_end_def)
  from waiter_callback_once [OF race_run t] race_run show ?thesis
    by (simp add: race_end_def)
qed
end
